theory Spec2Isabelle
  imports Complex_Main "HOL-Library.Word" "HOL-Library.Log_Nat"
begin

unbundle bit_operations_syntax

section \<open>quintctl: data model\<close>

text \<open>
  The program is one Python module, \<^verbatim>\<open>quintctl.py\<close>. Python integers are unbounded and
  are modelled as \<open>int\<close>; a list index or a bit position is a \<open>nat\<close>. A Python float
  is an IEEE 754 double: a rational that a double represents, an infinity, or not-a-number.
\<close>

datatype error =
    TypeError | KeyError | ValueError | ZeroDivisionError | OverflowError
  | SystemExit int | Blocked

text \<open>
  The \<^verbatim>\<open>"values"\<close> key of a catalog entry holds either a dictionary or a callable. The
  callable receives the value as it is, which may be \<^verbatim>\<open>None\<close>.
\<close>

datatype valmap =
    ValDict "(int \<times> string) list"
  | ValFun "int option \<Rightarrow> error + string"

text \<open>
  A catalog entry (\<^verbatim>\<open>regdict\<close>): every key except \<^verbatim>\<open>"addr"\<close> is optional.
\<close>

record regdict =
  addr :: int
  rtype :: "string option"
  rvalues :: "valmap option"
  runit :: "string option"
  rlength :: "nat option"
  rbits :: "(nat \<times> string) list option"
  rmin :: "int option"
  rmax :: "int option"
  rmode :: "string option"
  rdescription :: "string option"

definition reg :: "int \<Rightarrow> regdict" where
  "reg a = \<lparr>addr = a, rtype = None, rvalues = None, runit = None, rlength = None,
            rbits = None, rmin = None, rmax = None, rmode = None, rdescription = None\<rparr>"

text \<open>Line 124: the classification lambda of \<^verbatim>\<open>OUT_LUI_BatteryInstalledType\<close>.\<close>

definition battery_installed_type :: "int option \<Rightarrow> error + string" where
  "battery_installed_type value =
     (case value of
        None \<Rightarrow> Inl TypeError
      | Some v \<Rightarrow> Inr (if v > 18000 then ''Capacitor''
                       else if v > 11000 then ''Lithium battery''
                       else if v > 1000 then ''Lead battery''
                       else ''unknown''))"

text \<open>
  Lines 16-257: the catalog, in insertion order (a Python dict iterates in insertion order;
  the \<^verbatim>\<open>update\<close> adds only new names). The duplicate key 8 in the bits of
  \<^verbatim>\<open>OUT_LUDW_ActualWarning\<close> keeps its position and its last value.
\<close>

definition Quint24DCRegisters :: "(string \<times> regdict) list" where
  "Quint24DCRegisters =
   [(''OUT_LX_Remote'', (reg 0x7400)\<lparr>rtype := Some ''bool'',
       rvalues := Some (ValDict [(0, ''on''), (1, ''off'')])\<rparr>),
    (''OUT_LX_BatteryMode'', (reg 0x7401)\<lparr>rtype := Some ''bool''\<rparr>),
    (''OUT_LX_ShutdownEvent'', (reg 0x7402)\<lparr>rtype := Some ''bool''\<rparr>),
    (''OUT_LX_BatteryCharging'', (reg 0x7403)\<lparr>rtype := Some ''bool''\<rparr>),
    (''OUT_LUI_PowerSourceBoost'', (reg 0x7406)\<lparr>rtype := Some ''state'',
       rvalues := Some (ValDict [(0, ''I > Inominal''), (1, ''I < Inominal''),
                                 (2, ''not connected'')])\<rparr>),
    (''OUT_LUI_OutputVoltage'', (reg 0x7431)\<lparr>rtype := Some ''int'', runit := Some ''mV'',
       rmax := Some 30000\<rparr>),
    (''OUT_LUI_SocStateOfCharge'', (reg 0x7435)\<lparr>rtype := Some ''int'', runit := Some ''%'',
       rvalues := Some (ValDict [(65535, ''not initialized'')])\<rparr>),
    (''OUT_LUI_SocStateResidualBackupTime'', (reg 0x7436)\<lparr>rtype := Some ''int'',
       runit := Some ''minutes'', rvalues := Some (ValDict [(65535, ''not initialized'')])\<rparr>),
    (''OUT_LUI_BatteryVoltage'', (reg 0x7460)\<lparr>rtype := Some ''int'', runit := Some ''mV'',
       rmax := Some 30000\<rparr>),
    (''OUT_LUI_BatteryTemperature'', (reg 0x7461)\<lparr>rtype := Some ''int'',
       runit := Some ''Kelvin'', rmin := Some 200, rmax := Some 400\<rparr>),
    (''OUT_LUI_OutputVoltage2'', (reg 0x7462)\<lparr>rtype := Some ''int'', runit := Some ''mV'',
       rmax := Some 3000\<rparr>),
    (''OUT_LUI_SocStateResidualBackupTimeS'', (reg 0x7463)\<lparr>rtype := Some ''int'',
       runit := Some ''seconds'', rvalues := Some (ValDict [(65535, ''not initialized'')])\<rparr>),
    (''OUT_LUDI_BatteryNormCapacityWs'', (reg 0x7464)\<lparr>rtype := Some ''int'',
       runit := Some ''100Ws'', rvalues := Some (ValDict [(65535, ''not detected'')])\<rparr>),
    (''OUT_LUI_BatteryDischaCurrent'', (reg 0x7466)\<lparr>rtype := Some ''int'',
       runit := Some ''mA''\<rparr>),
    (''OUT_LUI_BatteryDetectedUnits'', (reg 0x7467)\<lparr>rtype := Some ''int'',
       rmax := Some 15\<rparr>),
    (''OUT_LUDI_BatteryNormCapacitymAh'', (reg 0x7468)\<lparr>rtype := Some ''int'',
       runit := Some ''100mAh'', rvalues := Some (ValDict [(65535, ''not detected'')])\<rparr>),
    (''OUT_LUI_BatteryInstalledType'', (reg 0x7469)\<lparr>rtype := Some ''state'',
       rvalues := Some (ValFun battery_installed_type)\<rparr>),
    (''OUT_LUDW_ActualAlarm'', (reg 0x7490)\<lparr>rtype := Some ''bits'', rlength := Some 2,
       rbits := Some [(0, ''end of life (SOH)''), (4, ''end of life (Resistance)''),
                      (5, ''end of life (Resistance)''), (6, ''end of life (Time)''),
                      (7, ''end of life (Voltage)''), (9, ''no battery''),
                      (10, ''inconsistent technology''), (11, ''overload cutoff''),
                      (12, ''low battery (Voltage)''), (13, ''low battery (Charge)''),
                      (14, ''low battery (Time)''), (16, ''service'')]\<rparr>),
    (''OUT_LUDW_ActualWarning'', (reg 0x7494)\<lparr>rtype := Some ''bits'',
       rbits := Some [(0, ''end of life (SOH)''), (7, ''inconsistent capacity''),
                      (8, ''less batteries''), (12, ''low battery (Voltage)''),
                      (13, ''low battery (Charge)''), (14, ''low battery (Time)''),
                      (15, ''service without battery registration'')]\<rparr>),
    (''FW_VERSION'', reg 0x1602),
    (''BAT_INSTALLED_CAPACITY_NOMINAL'', (reg 0x1611)\<lparr>runit := Some ''100mAh''\<rparr>),
    (''TIME_LIMIT_MODE_CUSTOM_BUFFER_TIME'', (reg 0x3203)\<lparr>rmode := Some ''rw'',
       rdescription := Some ''seconds after power loss until output voltage is turned off (in custom mode only)''\<rparr>),
    (''COUNTER_BATTERY_MODE_EVENT'', (reg 0x6C00)\<lparr>rlength := Some 2\<rparr>),
    (''COUNTER_OPERATION_TIME'', (reg 0x6C0C)\<lparr>rlength := Some 2\<rparr>),
    (''COUNTER_USER_OPERATION_TIME'', (reg 0x6C10)\<lparr>rlength := Some 2\<rparr>),
    (''STATUS_SERVICE'', (reg 0x7405)\<lparr>rvalues := Some (ValDict
       [(0, ''not in service mode''), (1, ''service mode by key''),
        (2, ''service mode by stick''), (3, ''service mode by PC'')])\<rparr>),
    (''INPUT_ACTUAL_VOLTAGE'', (reg 0x7430)\<lparr>rtype := Some ''int'', runit := Some ''mV''\<rparr>),
    (''ACTUAL_CURRENT_CHARGING'', (reg 0x7465)\<lparr>rtype := Some ''int'', runit := Some ''mA''\<rparr>),
    (''BATTERY_ACTUAL_TEMPERATURE'', (reg 0x7473)\<lparr>rtype := Some ''int'',
       runit := Some ''Kelvin''\<rparr>),
    (''BATTERY_ACTUAL_ALL_VOLTAGE'', (reg 0x7472)\<lparr>rtype := Some ''int'',
       runit := Some ''mV''\<rparr>),
    (''BATTERY_ACTUAL_INTERNAL_VOLTAGE'', (reg 0x7477)\<lparr>rtype := Some ''int'',
       runit := Some ''mV''\<rparr>),
    (''ERROR_CODE_COUNTER'', reg 0x749A),
    (''SET_SERVICE_MODE_BY_PC'', reg 0x7873)]"

text \<open>Lines 259-263.\<close>

definition Quint24DCMonitorRegisters :: "(int \<times> int) list" where
  "Quint24DCMonitorRegisters = [(0x6c00, 0x6c50), (0x7400, 0x74a0), (0x7800, 0x78a0)]"

text \<open>Lines 265-281: an entry is a register name or an address.\<close>

definition default_skip :: "(string + int) list" where
  "default_skip =
     [Inl ''COUNTER_OPERATION_TIME'', Inl ''COUNTER_USER_OPERATION_TIME'',
      Inl ''INPUT_ACTUAL_VOLTAGE'', Inl ''BATTERY_ACTUAL_INTERNAL_VOLTAGE'',
      Inl ''OUT_LUI_OutputVoltage'',
      Inr 0x740b, Inr 0x740c, Inr 0x740d, Inr 0x7432, Inr 0x743c, Inr 0x743d, Inr 0x746c,
      Inr 0x7478]"

text \<open>
  \<^verbatim>\<open>regdict.get("length", 1)\<close>, and the first entry of the catalog at an address: the loop
  \<^verbatim>\<open>for reg, regdict in Quint24DCRegisters.items(): if regdict["addr"] == a: ... break\<close>.
\<close>

definition get_length :: "regdict \<Rightarrow> nat" where
  "get_length regdict = (case rlength regdict of Some n \<Rightarrow> n | None \<Rightarrow> 1)"

definition find_addr :: "(string \<times> regdict) list \<Rightarrow> int \<Rightarrow> (string \<times> regdict) option" where
  "find_addr catalog a = find (\<lambda>(name, regdict). addr regdict = a) catalog"

section \<open>The Modbus client and the terminal\<close>

text \<open>
  What the program prints is a list of lines, a line being the arguments of the
  \<^verbatim>\<open>print\<close> call. The Modbus library is outside the program: the world holds the answers
  it will give, in call order, and the calls made so far. A call when no answer is left
  does not return (\<open>Blocked\<close>).
\<close>

datatype pyval = Str string | Num int | NumList "int list" | PyNone

type_synonym line = "pyval list"

datatype response =
    ModbusException string
  | ErrorReply string
  | ExceptionReply string
  | Registers "int list"

datatype request = ReadInput int int | WriteRegs int "int list"

record world =
  responses :: "response list"
  requests :: "request list"
  stdout :: "line list"
  stderr :: "line list"
  closes :: nat
  now :: string

definition diagnostic :: "response \<Rightarrow> line list" where
  "diagnostic r =
     (case r of
        ModbusException e \<Rightarrow> [[Str (''Received ModbusException('' @ e @ '') from library'')]]
      | ErrorReply s \<Rightarrow> [[Str (''Received Modbus library error('' @ s @ '')'')]]
      | ExceptionReply s \<Rightarrow> [[Str (''Received Modbus library exception ('' @ s @ '')'')]]
      | Registers regs \<Rightarrow> [])"

text \<open>
  Lines 308-324 and 329-346, shared by \<^verbatim>\<open>readRegister\<close> and \<^verbatim>\<open>writeRegister\<close>: the
  library call with its three failure branches, each printing a diagnostic and closing
  the client. The result is the answer when it is a good one.
\<close>

definition transact :: "request \<Rightarrow> world \<Rightarrow> (error + int list option) \<times> world" where
  "transact rq w =
     (let w1 = w\<lparr>requests := requests w @ [rq]\<rparr> in
      case responses w of
        [] \<Rightarrow> (Inl Blocked, w1)
      | r # rs \<Rightarrow>
          (let w2 = w1\<lparr>responses := rs\<rparr> in
           case r of
             Registers regs \<Rightarrow> (Inr (Some regs), w2)
           | _ \<Rightarrow> (Inr None, w2\<lparr>stdout := stdout w2 @ diagnostic r,
                                 closes := closes w2 + 1\<rparr>)))"

text \<open>Lines 303-326. The result \<open>None\<close> is Python's \<^verbatim>\<open>None\<close>.\<close>

definition readRegister :: "int \<Rightarrow> int \<Rightarrow> world \<Rightarrow> (error + int list option) \<times> world" where
  "readRegister a count w =
     (let count = (if count = 0 then 0x10 else count) in transact (ReadInput a count) w)"

text \<open>Lines 328-348. \<open>Some ()\<close> is \<^verbatim>\<open>True\<close>, \<open>None\<close> is \<^verbatim>\<open>None\<close>.\<close>

definition writeRegister :: "int \<Rightarrow> int \<Rightarrow> world \<Rightarrow> (error + unit option) \<times> world" where
  "writeRegister a value w =
     (case transact (WriteRegs a [value]) w of
        (Inl e, w') \<Rightarrow> (Inl e, w')
      | (Inr None, w') \<Rightarrow> (Inr None, w')
      | (Inr (Some regs), w') \<Rightarrow> (Inr (Some ()), w'))"

section \<open>Value assembly and decoding\<close>

text \<open>
  Lines 355-360, and again lines 474-479: one word is taken as it is, otherwise the words
  are combined by \<^verbatim>\<open>value |= values[i] << (16*i)\<close> for \<open>i\<close> in \<^verbatim>\<open>range(len(values))\<close>,
  starting from 0.
\<close>

definition assemble :: "int list \<Rightarrow> int" where
  "assemble values =
     (if length values = 1 then values ! 0
      else fold (\<lambda>i value. value OR push_bit (16 * i) (values ! i)) [0..<length values] 0)"

text \<open>
  The arguments of \<^verbatim>\<open>print_value(info, values, prefix)\<close>: \<open>info\<close> is a catalog entry or
  an address. The function reads the module-level variable \<^verbatim>\<open>reg\<close>, which at every call
  with a catalog entry is the loop variable holding that entry's name; the model passes
  the name with the entry. \<open>values\<close> is a list of words, one integer, or \<^verbatim>\<open>None\<close>.
\<close>

datatype info = Reg string regdict | Addr int

datatype pyarg = Words "int list" | Scalar int | NoneArg

definition arg_val :: "pyarg \<Rightarrow> pyval" where
  "arg_val values = (case values of Words ws \<Rightarrow> NumList ws | Scalar v \<Rightarrow> Num v | NoneArg \<Rightarrow> PyNone)"

definition opt_val :: "int option \<Rightarrow> pyval" where
  "opt_val value = (case value of Some v \<Rightarrow> Num v | None \<Rightarrow> PyNone)"

text \<open>Lines 354-362: the logical value of the \<open>values\<close> argument.\<close>

definition value_of :: "pyarg \<Rightarrow> int option" where
  "value_of values =
     (case values of Words ws \<Rightarrow> Some (assemble ws) | Scalar v \<Rightarrow> Some v | NoneArg \<Rightarrow> None)"

text \<open>\<^verbatim>\<open>"0x%02x" % info\<close>: lower-case hexadecimal, at least two characters.\<close>

definition hex_digit :: "nat \<Rightarrow> char" where
  "hex_digit d = ''0123456789abcdef'' ! d"

function hex_nat :: "nat \<Rightarrow> string" where
  "hex_nat n = (if n < 16 then [hex_digit n] else hex_nat (n div 16) @ [hex_digit (n mod 16)])"
  by pat_completeness auto
termination
  by (relation "measure id") auto

definition fmt_02x :: "int \<Rightarrow> string" where
  "fmt_02x n =
     (let s = (if n < 0 then ''-'' else []) @ hex_nat (nat \<bar>n\<bar>)
      in replicate (2 - length s) (CHR ''0'') @ s)"

text \<open>Line 364: the label of the value in a \<^verbatim>\<open>"values"\<close> dictionary, when it is a key.\<close>

definition dict_label :: "regdict \<Rightarrow> int option \<Rightarrow> string option" where
  "dict_label regdict value =
     (case rvalues regdict of
        Some (ValDict d) \<Rightarrow> (case value of Some v \<Rightarrow> map_of d v | None \<Rightarrow> None)
      | _ \<Rightarrow> None)"

definition unit_or_empty :: "regdict \<Rightarrow> string" where
  "unit_or_empty regdict = (case runit regdict of Some u \<Rightarrow> u | None \<Rightarrow> [])"

definition truthy :: "int option \<Rightarrow> bool" where
  "truthy value = (case value of Some v \<Rightarrow> v \<noteq> 0 | None \<Rightarrow> False)"

text \<open>
  Lines 372-377: the value, then one line for each entry of \<^verbatim>\<open>"bits"\<close> whose bit is set,
  in the order of the dictionary. A missing \<^verbatim>\<open>"bits"\<close> key raises after the first line, and
  so does shifting \<^verbatim>\<open>None\<close>.
\<close>

definition print_bits :: "pyval \<Rightarrow> regdict \<Rightarrow> int option \<Rightarrow> line list \<times> error option" where
  "print_bits head regdict value =
     (case rbits regdict of
        None \<Rightarrow> ([[head, opt_val value]], Some KeyError)
      | Some bs \<Rightarrow>
          (case value of
             None \<Rightarrow> ([[head, PyNone]], if bs = [] then None else Some TypeError)
           | Some v \<Rightarrow>
               ([head, Num v] #
                map (\<lambda>(bit, descr). [Str ('' - '' @ descr)])
                    (filter (\<lambda>(bit, descr). (drop_bit bit v) AND 1 = 1) bs), None)))"

text \<open>
  Lines 364-378: the arm of the \<^verbatim>\<open>if\<close>/\<^verbatim>\<open>elif\<close> chain that decodes the value, the
  conditions tried in the order of the source.
\<close>

datatype branch =
    ByDict string
  | ByCallable "int option \<Rightarrow> error + string"
  | ByBool
  | ByInt
  | ByBits
  | ByDefault

definition decode_branch :: "regdict \<Rightarrow> int option \<Rightarrow> branch" where
  "decode_branch regdict value =
     (case dict_label regdict value of
        Some label \<Rightarrow> ByDict label
      | None \<Rightarrow>
          (case rvalues regdict of
             Some (ValFun f) \<Rightarrow> ByCallable f
           | _ \<Rightarrow>
               if rtype regdict = Some ''bool'' then ByBool
               else if rtype regdict = Some ''int'' then ByInt
               else if rtype regdict = Some ''bits'' then ByBits
               else ByDefault))"

text \<open>
  Lines 350-381. The result is the lines printed and the exception raised, if any.
\<close>

definition print_value :: "info \<Rightarrow> pyarg \<Rightarrow> string \<Rightarrow> line list \<times> error option" where
  "print_value info values prefix =
     (case info of
        Addr a \<Rightarrow> ([[Str (prefix @ ''0x'' @ fmt_02x a), arg_val values]], None)
      | Reg name regdict \<Rightarrow>
          (let value = value_of values; head = Str (prefix @ name @ '':'') in
           case decode_branch regdict value of
             ByDict label \<Rightarrow> ([[head, Str label]], None)
           | ByCallable f \<Rightarrow>
               (case f value of
                  Inl e \<Rightarrow> ([], Some e)
                | Inr label \<Rightarrow> ([[head, Str label]], None))
           | ByBool \<Rightarrow> ([[head, Str (if truthy value then ''on'' else ''off'')]], None)
           | ByInt \<Rightarrow> ([[head, opt_val value, Str (unit_or_empty regdict)]], None)
           | ByBits \<Rightarrow> print_bits head regdict value
           | ByDefault \<Rightarrow> ([[head, opt_val value, Str (unit_or_empty regdict)]], None)))"

text \<open>Appending what a \<^verbatim>\<open>print_value\<close> call printed to the terminal.\<close>

definition emit :: "line list \<times> error option \<Rightarrow> world \<Rightarrow> (error + unit) \<times> world" where
  "emit r w =
     (let w' = w\<lparr>stdout := stdout w @ fst r\<rparr>
      in case snd r of None \<Rightarrow> (Inr (), w') | Some e \<Rightarrow> (Inl e, w'))"

section \<open>The dumpall action\<close>

definition arg_of :: "int list option \<Rightarrow> pyarg" where
  "arg_of values = (case values of Some regs \<Rightarrow> Words regs | None \<Rightarrow> NoneArg)"

text \<open>
  Lines 413-424: what one pass of the loop does with the word read at \<open>i\<close>. The result is
  \<open>i\<close> after line 416.
\<close>

definition dumpall_entry :: "int \<Rightarrow> int list option \<Rightarrow> world \<Rightarrow> (error + int) \<times> world" where
  "dumpall_entry i values w =
     (case find_addr Quint24DCRegisters i of
        Some (name, regdict) \<Rightarrow>
          (let i' = i + (int (get_length regdict) - 1) in
           case emit (print_value (Reg name regdict) (arg_of values) []) w of
             (Inl e, w') \<Rightarrow> (Inl e, w')
           | (Inr u, w') \<Rightarrow> (Inr i', w'))
      | None \<Rightarrow>
          if values \<noteq> Some [65535] then
            (case emit (print_value (Addr i) (arg_of values) []) w of
               (Inl e, w') \<Rightarrow> (Inl e, w')
             | (Inr u, w') \<Rightarrow> (Inr i, w'))
          else (Inr i, w))"

text \<open>Lines 410-426, the loop from the current \<open>i\<close>; line 409 starts it at \<open>0x7400\<close>.\<close>

function dumpall_loop :: "int \<Rightarrow> world \<Rightarrow> (error + unit) \<times> world" where
  "dumpall_loop i w =
     (if i < 0x7500 then
        (case readRegister i 1 w of
           (Inl e, w') \<Rightarrow> (Inl e, w')
         | (Inr values, w') \<Rightarrow>
             (case dumpall_entry i values w' of
                (Inl e, w'') \<Rightarrow> (Inl e, w'')
              | (Inr i', w'') \<Rightarrow> dumpall_loop (i' + 1) w''))
      else (Inr (), w))"
  by pat_completeness auto
termination
  apply (relation "measure (\<lambda>(i, w). length (responses w))")
   apply simp
  apply (auto simp: readRegister_def transact_def dumpall_entry_def emit_def Let_def
              split: list.splits response.splits option.splits prod.splits sum.splits
                     if_splits)
  done

definition dumpall :: "world \<Rightarrow> (error + unit) \<times> world" where
  "dumpall w = dumpall_loop 0x7400 w"

section \<open>The monitor action\<close>

text \<open>
  The two thresholds are Python floats (\<^verbatim>\<open>type=float\<close> accepts \<^verbatim>\<open>inf\<close> and \<^verbatim>\<open>nan\<close>
  too). \<open>x > r\<close> for a finite left operand of exact value \<open>x\<close>: a comparison with
  not-a-number is false. Python compares an integer with a float exactly.
\<close>

datatype pyfloat = Finite rat | PosInf | NegInf | NaN

definition gt_float :: "rat \<Rightarrow> pyfloat \<Rightarrow> bool" where
  "gt_float x r =
     (case r of Finite q \<Rightarrow> q < x | PosInf \<Rightarrow> False | NegInf \<Rightarrow> True | NaN \<Rightarrow> False)"

text \<open>
  Rounding a rational to the nearest double, ties to even: for \<open>x > 0\<close> the exponent of the
  last place is \<open>expo x\<close>, 52 below the binary exponent of \<open>x\<close> and not below that of the
  subnormals, and the significand is \<open>x / 2^expo x\<close> rounded to an integer.
\<close>

definition floor_log2 :: "rat \<Rightarrow> int" where
  "floor_log2 x = (if 1 \<le> x then bitlen \<lfloor>x\<rfloor> - 1 else - bitlen (\<lceil>1 / x\<rceil> - 1))"

definition expo :: "rat \<Rightarrow> int" where
  "expo x = max (floor_log2 x - 52) (- 1074)"

definition round_half_even :: "rat \<Rightarrow> int" where
  "round_half_even y =
     (let f = \<lfloor>y\<rfloor>; d = y - of_int f
      in if d < 1 / 2 then f else if 1 / 2 < d then f + 1 else if even f then f else f + 1)"

definition round_pos :: "rat \<Rightarrow> rat" where
  "round_pos x = of_int (round_half_even (x / 2 powi expo x)) * 2 powi expo x"

definition round_double :: "rat \<Rightarrow> rat" where
  "round_double x =
     (if x = 0 then 0 else if 0 < x then round_pos x else - round_pos (- x))"

text \<open>The rationals that a double represents, and the floats.\<close>

definition is_double :: "rat \<Rightarrow> bool" where
  "is_double x \<longleftrightarrow> round_double x = x \<and> \<bar>x\<bar> < 2 ^ 1024"

definition is_float :: "pyfloat \<Rightarrow> bool" where
  "is_float r = (case r of Finite q \<Rightarrow> is_double q | _ \<Rightarrow> True)"

text \<open>
  Python's \<^verbatim>\<open>a / b\<close> on integers: the exact quotient, correctly rounded to a double;
  \<^verbatim>\<open>ZeroDivisionError\<close> for \<open>b = 0\<close> and \<^verbatim>\<open>OverflowError\<close> when the result is too large
  for a double.
\<close>

definition true_div :: "int \<Rightarrow> int \<Rightarrow> error + rat" where
  "true_div a b =
     (if b = 0 then Inl ZeroDivisionError
      else
        (let x = round_double (of_int a / of_int b)
         in if 2 ^ 1024 \<le> \<bar>x\<bar> then Inl OverflowError else Inr x))"

record config =
  min_change_rel :: "pyfloat option"
  min_change_abs :: "pyfloat option"
  skip_addr :: "int list"

text \<open>
  Lines 437-441: the default skip list is appended to the addresses given on the command
  line, a name being looked up in the catalog.
\<close>

fun add_default_skip :: "(string + int) list \<Rightarrow> int list \<Rightarrow> error + int list" where
  "add_default_skip [] skip = Inr skip"
| "add_default_skip (Inl name # rest) skip =
     (case map_of Quint24DCRegisters name of
        None \<Rightarrow> Inl KeyError
      | Some regdict \<Rightarrow> add_default_skip rest (skip @ [addr regdict]))"
| "add_default_skip (Inr a # rest) skip = add_default_skip rest (skip @ [a])"

text \<open>Lines 443-444.\<close>

definition rel_change :: "int \<Rightarrow> int \<Rightarrow> error + rat" where
  "rel_change old new = true_div \<bar>new - old\<bar> old"

text \<open>
  Lines 482-487, and again lines 495-500: \<open>p\<close> is \<^verbatim>\<open>prior.get(addr, None)\<close>. The relative
  check compares the double of \<^verbatim>\<open>rel_change\<close> with the threshold, the absolute check the
  integer \<^verbatim>\<open>abs(prior - value)\<close> with the threshold. Subtracting from \<^verbatim>\<open>None\<close> raises.
\<close>

definition show_value :: "config \<Rightarrow> int option \<Rightarrow> int \<Rightarrow> error + bool" where
  "show_value cfg p value =
     (case (case (min_change_rel cfg, p) of
              (Some r, Some old) \<Rightarrow>
                if p \<noteq> Some value \<and> old \<noteq> 0 then
                  (case rel_change old value of
                     Inl e \<Rightarrow> Inl e
                   | Inr x \<Rightarrow> Inr (gt_float x r))
                else Inr (p \<noteq> Some value)
            | _ \<Rightarrow> Inr (p \<noteq> Some value)) of
        Inl e \<Rightarrow> Inl e
      | Inr show \<Rightarrow>
          (case min_change_abs cfg of
             None \<Rightarrow> Inr show
           | Some t \<Rightarrow>
               if show then
                 (case p of
                    None \<Rightarrow> Inl TypeError
                  | Some old \<Rightarrow> Inr (gt_float (of_int \<bar>old - value\<bar>) t))
               else Inr show))"

text \<open>Lines 481-490, and again lines 494-503.\<close>

definition monitor_report ::
  "config \<Rightarrow> bool \<Rightarrow> info \<Rightarrow> int \<Rightarrow> int \<Rightarrow> (int \<rightharpoonup> int) \<Rightarrow> world \<Rightarrow> (error + unit) \<times> world" where
  "monitor_report cfg first info a value prior w =
     (if \<not> first then
        (case show_value cfg (prior a) value of
           Inl e \<Rightarrow> (Inl e, w)
         | Inr show \<Rightarrow>
             if show then emit (print_value info (Scalar value) (now w @ '' '')) w
             else (Inr (), w))
      else (Inr (), w))"

text \<open>
  Lines 470-506, the body of the walk at an address that is not skipped: the value of the
  register starting at \<open>idx\<close> is assembled, reported when it has to be, and stored in
  \<open>prior\<close>.
\<close>

definition register_value :: "(string \<times> regdict) option \<Rightarrow> int list \<Rightarrow> nat \<Rightarrow> int" where
  "register_value cur_regdict values idx =
     (case cur_regdict of
        Some (name, regdict) \<Rightarrow> assemble (take (get_length regdict) (drop idx values))
      | None \<Rightarrow> values ! idx)"

definition monitor_entry ::
  "config \<Rightarrow> bool \<Rightarrow> int \<Rightarrow> (string \<times> regdict) option \<Rightarrow> int list \<Rightarrow> nat \<Rightarrow> (int \<rightharpoonup> int) \<Rightarrow> world
     \<Rightarrow> (error + (int \<rightharpoonup> int)) \<times> world" where
  "monitor_entry cfg first a cur_regdict values idx prior w =
     (let value = register_value cur_regdict values idx;
          info = (case cur_regdict of Some (name, regdict) \<Rightarrow> Reg name regdict | None \<Rightarrow> Addr a)
      in case monitor_report cfg first info a value prior w of
           (Inl e, w') \<Rightarrow> (Inl e, w')
         | (Inr u, w') \<Rightarrow> (Inr (prior(a \<mapsto> value)), w'))"

text \<open>Lines 458-464: the increment of \<open>idx\<close> at an address.\<close>

definition idx_inc :: "(string \<times> regdict) option \<Rightarrow> nat" where
  "idx_inc cur_regdict =
     (case cur_regdict of Some (name, regdict) \<Rightarrow> get_length regdict | None \<Rightarrow> 1)"

text \<open>Lines 455-507: the walk over the buffer of one range, from \<open>idx\<close>.\<close>

function monitor_walk ::
  "config \<Rightarrow> bool \<Rightarrow> int \<Rightarrow> int list \<Rightarrow> nat \<Rightarrow> (int \<rightharpoonup> int) \<Rightarrow> world
     \<Rightarrow> (error + (int \<rightharpoonup> int)) \<times> world" where
  "monitor_walk cfg first start values idx prior w =
     (if idx < length values then
        (if start + int idx \<in> set (skip_addr cfg) then
           monitor_walk cfg first start values
             (idx + idx_inc (find_addr Quint24DCRegisters (start + int idx))) prior w
         else
           (case monitor_entry cfg first (start + int idx)
                   (find_addr Quint24DCRegisters (start + int idx)) values idx prior w of
              (Inl e, w') \<Rightarrow> (Inl e, w')
            | (Inr prior', w') \<Rightarrow>
                monitor_walk cfg first start values
                  (idx + idx_inc (find_addr Quint24DCRegisters (start + int idx))) prior' w'))
      else (Inr prior, w))"
  by pat_completeness auto
termination
proof -
  have pos: "0 < idx_inc (find_addr Quint24DCRegisters a)" for a
  proof (cases "find_addr Quint24DCRegisters a")
    case None
    then show ?thesis by (simp add: idx_inc_def)
  next
    case (Some nr)
    then have "nr \<in> set Quint24DCRegisters"
      unfolding find_addr_def find_Some_iff by (metis nth_mem)
    moreover have "\<forall>nr \<in> set Quint24DCRegisters. 0 < get_length (snd nr)"
      by (simp add: Quint24DCRegisters_def get_length_def reg_def)
    ultimately have "0 < get_length (snd nr)"
      by blast
    then show ?thesis
      by (simp add: Some idx_inc_def split_beta)
  qed
  show ?thesis
    apply (relation "measure (\<lambda>(cfg, first, start, values, idx, prior, w). length values - idx)")
      apply simp
    using pos apply (simp add: diff_less_mono2)
    using pos apply (simp add: diff_less_mono2)
    done
qed

text \<open>
  Lines 455-468 and 507: the indices at which the body of the walk runs, from \<open>idx\<close>, for a
  buffer of \<open>n\<close> words.
\<close>

function walk_indices :: "int \<Rightarrow> nat \<Rightarrow> nat \<Rightarrow> nat list" where
  "walk_indices start n idx =
     (if idx < n then
        idx # walk_indices start n (idx + idx_inc (find_addr Quint24DCRegisters (start + int idx)))
      else [])"
  by pat_completeness auto
termination
proof -
  have pos: "0 < idx_inc (find_addr Quint24DCRegisters a)" for a
  proof (cases "find_addr Quint24DCRegisters a")
    case None
    then show ?thesis by (simp add: idx_inc_def)
  next
    case (Some nr)
    then have "nr \<in> set Quint24DCRegisters"
      unfolding find_addr_def find_Some_iff by (metis nth_mem)
    moreover have "\<forall>nr \<in> set Quint24DCRegisters. 0 < get_length (snd nr)"
      by (simp add: Quint24DCRegisters_def get_length_def reg_def)
    ultimately have "0 < get_length (snd nr)"
      by blast
    then show ?thesis
      by (simp add: Some idx_inc_def split_beta)
  qed
  show ?thesis
    apply (relation "measure (\<lambda>(start, n, idx). n - idx)")
     apply simp
    using pos apply (simp add: diff_less_mono2)
    done
qed

declare walk_indices.simps [simp del]

text \<open>
  Lines 470-503 at the index \<open>i\<close> of the buffer, after warm-up: the lines a pass of the walk
  prints there, \<open>stamp\<close> being the time of day. Line 506 over a list of indices: the values
  stored in \<open>prior\<close>.
\<close>

definition entry_lines ::
  "config \<Rightarrow> (int \<rightharpoonup> int) \<Rightarrow> string \<Rightarrow> int \<Rightarrow> int list \<Rightarrow> nat \<Rightarrow> line list" where
  "entry_lines cfg prior stamp start buffer i =
     (let a = start + int i;
          cur_regdict = find_addr Quint24DCRegisters a;
          value = register_value cur_regdict buffer i
      in if show_value cfg (prior a) value = Inr True then
           fst (print_value
                  (case cur_regdict of
                     Some (name, regdict) \<Rightarrow> Reg name regdict
                   | None \<Rightarrow> Addr a)
                  (Scalar value) (stamp @ '' ''))
         else [])"

definition record_values ::
  "int \<Rightarrow> int list \<Rightarrow> nat list \<Rightarrow> (int \<rightharpoonup> int) \<Rightarrow> (int \<rightharpoonup> int)" where
  "record_values start buffer indices prior =
     fold (\<lambda>i pr. pr(start + int i \<mapsto>
                      register_value (find_addr Quint24DCRegisters (start + int i)) buffer i))
       indices prior"

text \<open>
  Lines 448-450: the buffer of a range is filled by reads of \<^verbatim>\<open>count=0\<close>, that is 16 words.
  \<^verbatim>\<open>values.extend(None)\<close> raises \<^verbatim>\<open>TypeError\<close>.
\<close>

function read_range :: "int \<Rightarrow> int \<Rightarrow> int list \<Rightarrow> world \<Rightarrow> (error + int list) \<times> world" where
  "read_range start endaddr values w =
     (if int (length values) < endaddr - start then
        (case readRegister (start + int (length values)) 0 w of
           (Inl e, w') \<Rightarrow> (Inl e, w')
         | (Inr None, w') \<Rightarrow> (Inl TypeError, w')
         | (Inr (Some regs), w') \<Rightarrow> read_range start endaddr (values @ regs) w')
      else (Inr values, w))"
  by pat_completeness auto
termination
  apply (relation "measure (\<lambda>(start, endaddr, values, w). length (responses w))")
   apply simp
  apply (auto simp: readRegister_def transact_def Let_def split: list.splits response.splits)
  done

text \<open>Lines 447-507: the ranges of one cycle, in order.\<close>

fun monitor_ranges ::
  "config \<Rightarrow> bool \<Rightarrow> (int \<times> int) list \<Rightarrow> (int \<rightharpoonup> int) \<Rightarrow> world
     \<Rightarrow> (error + (int \<rightharpoonup> int)) \<times> world" where
  "monitor_ranges cfg first [] prior w = (Inr prior, w)"
| "monitor_ranges cfg first ((start, endaddr) # rest) prior w =
     (case read_range start endaddr [] w of
        (Inl e, w') \<Rightarrow> (Inl e, w')
      | (Inr values, w') \<Rightarrow>
          (case monitor_walk cfg first start values 0 prior w' of
             (Inl e, w'') \<Rightarrow> (Inl e, w'')
           | (Inr prior', w'') \<Rightarrow> monitor_ranges cfg first rest prior' w''))"

text \<open>
  Lines 446-510: \<^verbatim>\<open>while True\<close>, cut after \<open>n\<close> cycles. The result is \<open>first\<close> and
  \<open>prior\<close> after the last cycle. The sleep of line 509 is not modelled.
\<close>

fun monitor_loop ::
  "nat \<Rightarrow> config \<Rightarrow> bool \<Rightarrow> (int \<rightharpoonup> int) \<Rightarrow> world \<Rightarrow> (error + bool \<times> (int \<rightharpoonup> int)) \<times> world" where
  "monitor_loop 0 cfg first prior w = (Inr (first, prior), w)"
| "monitor_loop (Suc n) cfg first prior w =
     (case monitor_ranges cfg first Quint24DCMonitorRegisters prior w of
        (Inl e, w') \<Rightarrow> (Inl e, w')
      | (Inr prior', w') \<Rightarrow> monitor_loop n cfg False prior' w')"

text \<open>
  Lines 428-446: the action from its start, with the thresholds and the parsed
  \<^verbatim>\<open>--skip-addr\<close> addresses of the command line.
\<close>

definition monitor ::
  "nat \<Rightarrow> pyfloat option \<Rightarrow> pyfloat option \<Rightarrow> int list \<Rightarrow> world
     \<Rightarrow> (error + bool \<times> (int \<rightharpoonup> int)) \<times> world" where
  "monitor n rel_opt abs_opt user_skip w =
     (case add_default_skip default_skip user_skip of
        Inl e \<Rightarrow> (Inl e, w)
      | Inr skip \<Rightarrow>
          monitor_loop n \<lparr>min_change_rel = rel_opt, min_change_abs = abs_opt, skip_addr = skip\<rparr>
            True Map.empty w)"

section \<open>The set action\<close>

text \<open>
  Lines 556-557: the first catalog entry whose name is the parameter or whose address is
  the parsed parameter.
\<close>

definition find_target ::
  "(string \<times> regdict) list \<Rightarrow> string \<Rightarrow> int option \<Rightarrow> (string \<times> regdict) option" where
  "find_target catalog param param_addr =
     find (\<lambda>(name, regdict). param = name \<or> param_addr = Some (addr regdict)) catalog"

text \<open>
  Lines 543-567. \<open>py_int\<close> is Python's \<^verbatim>\<open>int(s, 0)\<close>, \<open>None\<close> when it raises. The catalog
  is a parameter; the program passes \<open>Quint24DCRegisters\<close>.
\<close>

definition set_action ::
  "(string \<Rightarrow> int option) \<Rightarrow> (string \<times> regdict) list \<Rightarrow> string list \<Rightarrow> world
     \<Rightarrow> (error + unit) \<times> world" where
  "set_action py_int catalog action_params w =
     (if length action_params \<noteq> 2 then
        (Inl (SystemExit 1), w\<lparr>stderr := stderr w @ [[Str ''wrong parameter'']]\<rparr>)
      else
        (let param_addr = py_int (action_params ! 0) in
         case py_int (action_params ! 1) of
           None \<Rightarrow> (Inl ValueError, w)
         | Some value \<Rightarrow>
             (case find_target catalog (action_params ! 0) param_addr of
                Some (name, regdict) \<Rightarrow>
                  (case writeRegister (addr regdict) value w of
                     (Inl e, w') \<Rightarrow> (Inl e, w')
                   | (Inr r, w') \<Rightarrow> (Inr (), w'))
              | None \<Rightarrow>
                  (case param_addr of
                     None \<Rightarrow>
                       (Inl (SystemExit 1),
                        w\<lparr>stdout := stdout w @ [[Str ''error, register not found'']]\<rparr>)
                   | Some a \<Rightarrow>
                       (case writeRegister a value w of
                          (Inl e, w') \<Rightarrow> (Inl e, w')
                        | (Inr r, w') \<Rightarrow> (Inr (), w'))))))"

section \<open>Properties of the assembly and of the decoder\<close>

lemma or_push_bit_add:
  fixes acc v :: int
  assumes "0 \<le> acc" and "acc < 2 ^ n"
  shows "acc OR push_bit n v = acc + push_bit n v"
proof -
  have t: "take_bit n acc = acc"
    using assms by (simp add: take_bit_int_eq_self)
  have "\<not> bit acc m \<or> \<not> bit (push_bit n v) m" for m
  proof (cases "m < n")
    case True
    then show ?thesis by (simp add: bit_push_bit_iff)
  next
    case False
    then have "\<not> bit (take_bit n acc) m" by (simp add: bit_take_bit_iff)
    then show ?thesis by (simp add: t)
  qed
  then show ?thesis by (simp add: disjunctive_add)
qed

lemma fold_or_sum:
  fixes vs :: "int list"
  assumes "\<forall>v \<in> set vs. 0 \<le> v \<and> v < 65536"
  shows "n \<le> length vs \<Longrightarrow>
         fold (\<lambda>i value. value OR push_bit (16 * i) (vs ! i)) [0..<n] 0
           = (\<Sum>i<n. vs ! i * 2 ^ (16 * i))
         \<and> 0 \<le> (\<Sum>i<n. vs ! i * 2 ^ (16 * i))
         \<and> (\<Sum>i<n. vs ! i * 2 ^ (16 * i)) < 2 ^ (16 * n)"
proof (induction n)
  case 0
  then show ?case by simp
next
  case (Suc n)
  let ?S = "\<Sum>i<n. vs ! i * 2 ^ (16 * i)"
  from Suc have ih: "fold (\<lambda>i value. value OR push_bit (16 * i) (vs ! i)) [0..<n] 0 = ?S"
    and lo: "0 \<le> ?S" and hi: "?S < 2 ^ (16 * n)" by simp_all
  from Suc.prems assms have v: "0 \<le> vs ! n" "vs ! n < 65536"
    by (simp_all add: Suc_le_eq)
  have step: "?S OR push_bit (16 * n) (vs ! n) = ?S + vs ! n * 2 ^ (16 * n)"
    using or_push_bit_add [OF lo hi] by (simp add: push_bit_eq_mult)
  have "vs ! n * 2 ^ (16 * n) \<le> 65535 * 2 ^ (16 * n)"
    using v by (intro mult_right_mono) simp_all
  with hi have "?S + vs ! n * 2 ^ (16 * n) < 2 ^ (16 * n) + 65535 * 2 ^ (16 * n)"
    by linarith
  also have "\<dots> = 2 ^ (16 * Suc n)"
    by (simp add: power_add)
  finally have hi': "?S + vs ! n * 2 ^ (16 * n) < 2 ^ (16 * Suc n)" .
  have lo': "0 \<le> ?S + vs ! n * 2 ^ (16 * n)"
    using lo v by simp
  show ?case
    using ih step lo' hi' by simp
qed

lemma assemble_sum:
  assumes "\<forall>v \<in> set vs. 0 \<le> v \<and> v < 65536"
  shows "assemble vs = (\<Sum>i<length vs. vs ! i * 2 ^ (16 * i))"
proof (cases "length vs = 1")
  case True
  then show ?thesis by (simp add: assemble_def)
next
  case False
  then show ?thesis
    using fold_or_sum [OF assms, of "length vs"] by (simp add: assemble_def)
qed

text \<open>
  C4. For a list of 16-bit words, the assembled value is the sum of \<open>words[i] * 2^(16*i)\<close>,
  the first word being the least significant: one word assembles to itself, two words to
  \<open>words[0] + words[1] * 65536\<close>. This is the value \<^verbatim>\<open>print_value\<close> decodes for a list
  (\<open>value_of\<close>) and the value the monitor walk takes for a catalog register from its
  slice of the buffer (\<open>register_value\<close>).
\<close>

theorem C4_assemble_least_significant_first:
  assumes "\<forall>v \<in> set ws. 0 \<le> v \<and> v < 65536"
  shows "assemble ws = (\<Sum>i<length ws. ws ! i * 2 ^ (16 * i))
       \<and> value_of (Words ws) = Some (\<Sum>i<length ws. ws ! i * 2 ^ (16 * i))
       \<and> (take (get_length regdict) (drop idx buffer) = ws \<longrightarrow>
            register_value (Some (name, regdict)) buffer idx
              = (\<Sum>i<length ws. ws ! i * 2 ^ (16 * i)))
       \<and> (length ws = 1 \<longrightarrow> assemble ws = ws ! 0)
       \<and> (length ws = 2 \<longrightarrow> assemble ws = ws ! 0 + ws ! 1 * 65536)"
proof -
  have s: "assemble ws = (\<Sum>i<length ws. ws ! i * 2 ^ (16 * i))"
    by (rule assemble_sum [OF assms])
  have one: "length ws = 1 \<Longrightarrow> assemble ws = ws ! 0"
    by (simp add: assemble_def)
  have two: "length ws = 2 \<Longrightarrow> assemble ws = ws ! 0 + ws ! 1 * 65536"
    using s by (simp add: lessThan_Suc numeral_2_eq_2)
  show ?thesis
    using s one two by (simp add: value_of_def register_value_def)
qed

theorem C4_assemble_witness:
  "assemble [4660, 1] = 70196
   \<and> value_of (Words [4660, 1]) = Some 70196
   \<and> register_value (Some (''COUNTER_BATTERY_MODE_EVENT'', (reg 0x6C00)\<lparr>rlength := Some 2\<rparr>))
        [4660, 1, 7] 0 = 70196
   \<and> assemble [4660] = 4660"
proof -
  have h: "\<forall>v \<in> set [4660, 1 :: int]. 0 \<le> v \<and> v < 65536"
    by simp
  have t: "take (get_length ((reg 0x6C00)\<lparr>rlength := Some 2\<rparr>)) (drop 0 [4660, 1, 7 :: int])
             = [4660, 1]"
    by (simp add: get_length_def reg_def)
  have "assemble [4660] = 4660"
    by (simp add: assemble_def)
  then show ?thesis
    using C4_assemble_least_significant_first [OF h, of "(reg 0x6C00)\<lparr>rlength := Some 2\<rparr>" 0
        "[4660, 1, 7]" "''COUNTER_BATTERY_MODE_EVENT''"] t
    by (simp add: lessThan_Suc numeral_2_eq_2)
qed

lemma value_of_single: "value_of (Words [v]) = Some v"
  by (simp add: value_of_def assemble_def)

text \<open>
  C9. The battery-type register \<^verbatim>\<open>OUT_LUI_BatteryInstalledType\<close> is a state register whose
  \<^verbatim>\<open>"values"\<close> is the classification function; decoding a word \<open>v\<close> prints the label of
  the first threshold passed, tried in descending order: above 18000 Capacitor, above 11000
  Lithium battery, above 1000 Lead battery, otherwise unknown.
\<close>

theorem C9_battery_installed_type:
  "map_of Quint24DCRegisters ''OUT_LUI_BatteryInstalledType''
     = Some ((reg 0x7469)\<lparr>rtype := Some ''state'', rvalues := Some (ValFun battery_installed_type)\<rparr>)
   \<and> print_value (Reg ''OUT_LUI_BatteryInstalledType''
         ((reg 0x7469)\<lparr>rtype := Some ''state'', rvalues := Some (ValFun battery_installed_type)\<rparr>))
         (Words [v]) prefix
     = ([[Str (prefix @ ''OUT_LUI_BatteryInstalledType:''),
          Str (if 18000 < v then ''Capacitor''
               else if 11000 < v then ''Lithium battery''
               else if 1000 < v then ''Lead battery''
               else ''unknown'')]], None)"
proof -
  have m: "map_of Quint24DCRegisters ''OUT_LUI_BatteryInstalledType''
     = Some ((reg 0x7469)\<lparr>rtype := Some ''state'', rvalues := Some (ValFun battery_installed_type)\<rparr>)"
    by (simp add: Quint24DCRegisters_def)
  have p: "print_value (Reg ''OUT_LUI_BatteryInstalledType''
         ((reg 0x7469)\<lparr>rtype := Some ''state'', rvalues := Some (ValFun battery_installed_type)\<rparr>))
         (Words [v]) prefix
     = ([[Str (prefix @ ''OUT_LUI_BatteryInstalledType:''),
          Str (if 18000 < v then ''Capacitor''
               else if 11000 < v then ''Lithium battery''
               else if 1000 < v then ''Lead battery''
               else ''unknown'')]], None)"
    by (simp add: print_value_def value_of_single decode_branch_def dict_label_def reg_def
          battery_installed_type_def)
  from m p show ?thesis by (rule conjI)
qed

text \<open>The four values of the specification: 19000, 12000, 5000 and 500.\<close>

theorem C9_battery_installed_type_witness:
  "print_value (Reg ''OUT_LUI_BatteryInstalledType''
       ((reg 0x7469)\<lparr>rtype := Some ''state'', rvalues := Some (ValFun battery_installed_type)\<rparr>))
       (Words [19000]) [] = ([[Str ''OUT_LUI_BatteryInstalledType:'', Str ''Capacitor'']], None)
   \<and> print_value (Reg ''OUT_LUI_BatteryInstalledType''
       ((reg 0x7469)\<lparr>rtype := Some ''state'', rvalues := Some (ValFun battery_installed_type)\<rparr>))
       (Words [12000]) [] = ([[Str ''OUT_LUI_BatteryInstalledType:'', Str ''Lithium battery'']], None)
   \<and> print_value (Reg ''OUT_LUI_BatteryInstalledType''
       ((reg 0x7469)\<lparr>rtype := Some ''state'', rvalues := Some (ValFun battery_installed_type)\<rparr>))
       (Words [5000]) [] = ([[Str ''OUT_LUI_BatteryInstalledType:'', Str ''Lead battery'']], None)
   \<and> print_value (Reg ''OUT_LUI_BatteryInstalledType''
       ((reg 0x7469)\<lparr>rtype := Some ''state'', rvalues := Some (ValFun battery_installed_type)\<rparr>))
       (Words [500]) [] = ([[Str ''OUT_LUI_BatteryInstalledType:'', Str ''unknown'']], None)"
  using C9_battery_installed_type [of 19000 "[]"] C9_battery_installed_type [of 12000 "[]"]
    C9_battery_installed_type [of 5000 "[]"] C9_battery_installed_type [of 500 "[]"]
  by simp

text \<open>
  C8, as stated, fails: \<^verbatim>\<open>OUT_LX_Remote\<close> has the map \<open>{0: "on", 1: "off"}\<close>, and the word 2,
  which is not a key of the map, is decoded by the generic rule of the bool arm.
\<close>

theorem C8_bool_falls_back_with_map_counterexample:
  "map_of Quint24DCRegisters ''OUT_LX_Remote''
     = Some ((reg 0x7400)\<lparr>rtype := Some ''bool'',
               rvalues := Some (ValDict [(0, ''on''), (1, ''off'')])\<rparr>)
   \<and> decode_branch ((reg 0x7400)\<lparr>rtype := Some ''bool'',
               rvalues := Some (ValDict [(0, ''on''), (1, ''off'')])\<rparr>) (Some 2) = ByBool
   \<and> print_value (Reg ''OUT_LX_Remote'' ((reg 0x7400)\<lparr>rtype := Some ''bool'',
               rvalues := Some (ValDict [(0, ''on''), (1, ''off'')])\<rparr>)) (Words [2]) []
       = ([[Str ''OUT_LX_Remote:'', Str ''on'']], None)"
  by (simp add: Quint24DCRegisters_def print_value_def value_of_single decode_branch_def
        dict_label_def reg_def truthy_def)

text \<open>
  C8, amended. Decoding a bool register prints the label of the map when the value is a key
  of the entry's map; it prints the generic label (zero off, nonzero on) when the entry has
  no map, and also when the entry has a map of which the value is not a key.
\<close>

theorem C8_bool_decoding:
  assumes "rtype regdict = Some ''bool''"
  shows "(rvalues regdict = Some (ValDict d) \<and> map_of d v = Some label \<longrightarrow>
            decode_branch regdict (Some v) = ByDict label
            \<and> print_value (Reg name regdict) (Words [v]) prefix
                = ([[Str (prefix @ name @ '':''), Str label]], None))
       \<and> (rvalues regdict = None \<or> (rvalues regdict = Some (ValDict d) \<and> map_of d v = None) \<longrightarrow>
            decode_branch regdict (Some v) = ByBool
            \<and> print_value (Reg name regdict) (Words [v]) prefix
                = ([[Str (prefix @ name @ '':''), Str (if v = 0 then ''off'' else ''on'')]], None))"
  using assms
  by (auto simp: print_value_def value_of_single decode_branch_def dict_label_def truthy_def)

text \<open>
  \<^verbatim>\<open>OUT_LX_Remote\<close> at 0, 1 and 2, and \<^verbatim>\<open>OUT_LX_BatteryMode\<close>, which has no map, at 0
  and 7.
\<close>

theorem C8_bool_decoding_witness:
  "print_value (Reg ''OUT_LX_Remote'' ((reg 0x7400)\<lparr>rtype := Some ''bool'',
               rvalues := Some (ValDict [(0, ''on''), (1, ''off'')])\<rparr>)) (Words [0]) []
       = ([[Str ''OUT_LX_Remote:'', Str ''on'']], None)
   \<and> print_value (Reg ''OUT_LX_Remote'' ((reg 0x7400)\<lparr>rtype := Some ''bool'',
               rvalues := Some (ValDict [(0, ''on''), (1, ''off'')])\<rparr>)) (Words [1]) []
       = ([[Str ''OUT_LX_Remote:'', Str ''off'']], None)
   \<and> print_value (Reg ''OUT_LX_Remote'' ((reg 0x7400)\<lparr>rtype := Some ''bool'',
               rvalues := Some (ValDict [(0, ''on''), (1, ''off'')])\<rparr>)) (Words [2]) []
       = ([[Str ''OUT_LX_Remote:'', Str ''on'']], None)
   \<and> print_value (Reg ''OUT_LX_BatteryMode'' ((reg 0x7401)\<lparr>rtype := Some ''bool''\<rparr>))
         (Words [0]) [] = ([[Str ''OUT_LX_BatteryMode:'', Str ''off'']], None)
   \<and> print_value (Reg ''OUT_LX_BatteryMode'' ((reg 0x7401)\<lparr>rtype := Some ''bool''\<rparr>))
         (Words [7]) [] = ([[Str ''OUT_LX_BatteryMode:'', Str ''on'']], None)"
proof -
  let ?R = "(reg 0x7400)\<lparr>rtype := Some ''bool'',
               rvalues := Some (ValDict [(0, ''on''), (1, ''off'')])\<rparr>"
  let ?B = "(reg 0x7401)\<lparr>rtype := Some ''bool''\<rparr>"
  have r: "rtype ?R = Some ''bool''" and b: "rtype ?B = Some ''bool''"
    by (simp_all add: reg_def)
  have rv: "rvalues ?R = Some (ValDict [(0, ''on''), (1, ''off'')])" and bv: "rvalues ?B = None"
    by (simp_all add: reg_def)
  show ?thesis
    using C8_bool_decoding [OF r, of "[(0, ''on''), (1, ''off'')]" 0 "''on''" "''OUT_LX_Remote''" "[]"]
      C8_bool_decoding [OF r, of "[(0, ''on''), (1, ''off'')]" 1 "''off''" "''OUT_LX_Remote''" "[]"]
      C8_bool_decoding [OF r, of "[(0, ''on''), (1, ''off'')]" 2 "''x''" "''OUT_LX_Remote''" "[]"]
      C8_bool_decoding [OF b, of "[]" 0 "''x''" "''OUT_LX_BatteryMode''" "[]"]
      C8_bool_decoding [OF b, of "[]" 7 "''x''" "''OUT_LX_BatteryMode''" "[]"]
      rv bv
    by simp
qed

section \<open>Properties of the monitor's report rule\<close>

lemma emit_stdout: "stdout (snd (emit r w)) = stdout w @ fst r"
  by (simp add: emit_def Let_def split: option.splits)

lemma monitor_report_stdout:
  assumes "show_value cfg (prior a) v = Inr b"
  shows "stdout (snd (monitor_report cfg False info a v prior w)) =
           stdout w @ (if b then fst (print_value info (Scalar v) (now w @ '' '')) else [])"
  using assms by (simp add: monitor_report_def emit_stdout)

lemma monitor_entry_world:
  "snd (monitor_entry cfg first a cur buffer idx prior w) =
     snd (monitor_report cfg first
           (case cur of Some (name, regdict) \<Rightarrow> Reg name regdict | None \<Rightarrow> Addr a)
           a (register_value cur buffer idx) prior w)"
  by (simp add: monitor_entry_def Let_def split: prod.splits sum.splits)

lemma monitor_entry_prior:
  assumes "monitor_entry cfg first a cur buffer idx prior w = (Inr prior', w')"
  shows "prior' = prior(a \<mapsto> register_value cur buffer idx)"
  using assms
  by (auto simp: monitor_entry_def Let_def split: prod.splits sum.splits)

lemma find_addr_mem: "find_addr catalog a = Some nr \<Longrightarrow> nr \<in> set catalog"
  unfolding find_addr_def find_Some_iff by (metis nth_mem)

lemma print_bits_nonempty: "fst (print_bits head regdict value) \<noteq> []"
  by (simp add: print_bits_def split: option.splits)


lemma catalog_callable:
  "\<forall>nr \<in> set Quint24DCRegisters. \<forall>f. rvalues (snd nr) = Some (ValFun f) \<longrightarrow> f = battery_installed_type"
  by (simp add: Quint24DCRegisters_def reg_def)

lemma decode_branch_callable:
  "decode_branch regdict value = ByCallable f \<Longrightarrow> rvalues regdict = Some (ValFun f)"
  by (simp add: decode_branch_def split: option.splits valmap.splits if_splits)

lemma print_value_nonempty:
  assumes "\<forall>f. rvalues regdict = Some (ValFun f) \<longrightarrow> f = battery_installed_type"
    and "value_of arg = Some v"
  shows "fst (print_value (Reg name regdict) arg prefix) \<noteq> []"
proof (cases "decode_branch regdict (Some v)")
  case (ByCallable f)
  then have "f = battery_installed_type"
    using assms(1) decode_branch_callable by blast
  then show ?thesis
    using ByCallable assms(2)
    by (simp add: print_value_def battery_installed_type_def)
qed (simp_all add: print_value_def assms(2) print_bits_nonempty)

lemma print_value_catalog_nonempty:
  "fst (print_value (case find_addr Quint24DCRegisters a of
          Some (name, regdict) \<Rightarrow> Reg name regdict | None \<Rightarrow> Addr a) (Scalar v) prefix) \<noteq> []"
proof (cases "find_addr Quint24DCRegisters a")
  case None
  then show ?thesis by (simp add: print_value_def)
next
  case (Some nr)
  then have "\<forall>f. rvalues (snd nr) = Some (ValFun f) \<longrightarrow> f = battery_installed_type"
    using catalog_callable find_addr_mem by blast
  then show ?thesis
    using Some print_value_nonempty [of "snd nr" "Scalar v" v "fst nr" prefix]
    by (cases nr) (simp add: value_of_def)
qed


lemma monitor_walk_step:
  assumes "idx < length buffer" and "start + int idx \<notin> set (skip_addr cfg)"
  shows "monitor_walk cfg first start buffer idx prior w =
           (case monitor_entry cfg first (start + int idx)
                   (find_addr Quint24DCRegisters (start + int idx)) buffer idx prior w of
              (Inl e, w') \<Rightarrow> (Inl e, w')
            | (Inr prior', w') \<Rightarrow>
                monitor_walk cfg first start buffer
                  (idx + idx_inc (find_addr Quint24DCRegisters (start + int idx))) prior' w')"
  using assms by (subst monitor_walk.simps) simp

text \<open>
  Register words are unsigned. When the words of the buffer and the values of \<open>prior\<close> are
  not negative, the values of \<open>prior\<close> after the walk are not negative either.
\<close>

lemma fold_or_nonneg:
  fixes vs :: "int list"
  assumes "\<forall>v \<in> set vs. 0 \<le> v"
  shows "n \<le> length vs \<Longrightarrow>
         0 \<le> fold (\<lambda>i value. value OR push_bit (16 * i) (vs ! i)) [0..<n] 0"
proof (induction n)
  case 0
  then show ?case by simp
next
  case (Suc n)
  then have "0 \<le> vs ! n"
    using assms by (simp add: Suc_le_eq)
  with Suc show ?case by simp
qed

lemma assemble_nonneg:
  assumes "\<forall>v \<in> set vs. 0 \<le> v"
  shows "0 \<le> assemble vs"
proof (cases "length vs = 1")
  case True
  then have "vs ! 0 \<in> set vs" by simp
  with assms True show ?thesis by (simp add: assemble_def)
next
  case False
  then show ?thesis
    using fold_or_nonneg [OF assms, of "length vs"] by (simp add: assemble_def)
qed

lemma register_value_nonneg:
  assumes "\<forall>v \<in> set buffer. 0 \<le> v" and "idx < length buffer"
  shows "0 \<le> register_value cur buffer idx"
proof (cases cur)
  case None
  then show ?thesis using assms by (simp add: register_value_def)
next
  case (Some nr)
  have "set (take (get_length (snd nr)) (drop idx buffer)) \<subseteq> set buffer"
    using set_take_subset set_drop_subset by fast
  then have "0 \<le> assemble (take (get_length (snd nr)) (drop idx buffer))"
    using assms(1) by (intro assemble_nonneg) blast
  then show ?thesis
    using Some by (simp add: register_value_def split_beta)
qed

lemma monitor_walk_prior_nonneg:
  assumes "\<forall>v \<in> set buffer. 0 \<le> v"
  shows "monitor_walk cfg first start buffer idx prior w = (Inr prior', w') \<Longrightarrow>
           \<forall>a p. prior a = Some p \<longrightarrow> 0 \<le> p \<Longrightarrow>
           \<forall>a p. prior' a = Some p \<longrightarrow> 0 \<le> p"
  using assms
proof (induction cfg first start buffer idx prior w rule: monitor_walk.induct)
  case (1 cfg first start buffer idx prior w)
  let ?a = "start + int idx"
  let ?cur = "find_addr Quint24DCRegisters ?a"
  show ?case
  proof (cases "idx < length buffer")
    case False
    with "1.prems"(1,2) show ?thesis by (subst (asm) monitor_walk.simps) simp
  next
    case True
    show ?thesis
    proof (cases "?a \<in> set (skip_addr cfg)")
      case skip: True
      have "monitor_walk cfg first start buffer (idx + idx_inc ?cur) prior w = (Inr prior', w')"
        using "1.prems"(1) True skip by (subst (asm) monitor_walk.simps) simp
      from "1.IH"(1) [OF True skip this "1.prems"(2,3)] show ?thesis .
    next
      case noskip: False
      obtain r1 w1 where me: "monitor_entry cfg first ?a ?cur buffer idx prior w = (r1, w1)"
        by (cases "monitor_entry cfg first ?a ?cur buffer idx prior w")
      show ?thesis
      proof (cases r1)
        case (Inl e)
        with "1.prems"(1) True noskip me show ?thesis
          by (subst (asm) monitor_walk.simps) simp
      next
        case (Inr prior1)
        have p1: "prior1 = prior(?a \<mapsto> register_value ?cur buffer idx)"
          using monitor_entry_prior me Inr by blast
        have nn: "\<forall>a p. prior1 a = Some p \<longrightarrow> 0 \<le> p"
          using "1.prems"(2) register_value_nonneg [OF "1.prems"(3) True, of ?cur]
          by (simp add: p1)
        have "monitor_walk cfg first start buffer (idx + idx_inc ?cur) prior1 w1 = (Inr prior', w')"
          using "1.prems"(1) True noskip me Inr by (subst (asm) monitor_walk.simps) simp
        from "1.IH"(2) [OF True noskip me [symmetric] Inr this nn "1.prems"(3)] show ?thesis .
      qed
    qed
  qed
qed

section \<open>Properties of the dumpall scan\<close>

lemma readRegister_Registers:
  assumes "responses w = Registers regs # rest"
  shows "readRegister i (1::int) w =
           (Inr (Some regs), w\<lparr>requests := requests w @ [ReadInput i 1], responses := rest\<rparr>)"
  using assms by (simp add: readRegister_def transact_def)

lemma dumpall_loop_step:
  assumes "i < 0x7500" and "responses w = Registers regs # rest"
  shows "dumpall_loop i w =
           (case dumpall_entry i (Some regs)
                   (w\<lparr>requests := requests w @ [ReadInput i 1], responses := rest\<rparr>) of
              (Inl e, w'') \<Rightarrow> (Inl e, w'')
            | (Inr i', w'') \<Rightarrow> dumpall_loop (i' + 1) w'')"
  using assms(1) by (subst dumpall_loop.simps) (simp add: readRegister_Registers [OF assms(2)])

text \<open>
  C6. In the scan, at an address with no catalog entry, the word \<open>0xFFFF\<close> produces no
  output and any other word produces the raw line of the address; at an address with a
  catalog entry the word is always decoded and printed, \<open>0xFFFF\<close> included. Each pass of
  the loop applies \<open>dumpall_entry\<close> to the word it read (\<open>dumpall_loop_step\<close>).
\<close>

theorem C6_dumpall_sentinel:
  "(find_addr Quint24DCRegisters i = None \<longrightarrow>
      dumpall_entry i (Some [65535]) w = (Inr i, w)
      \<and> (word \<noteq> 65535 \<longrightarrow>
           dumpall_entry i (Some [word]) w =
             (Inr i, w\<lparr>stdout := stdout w @ [[Str (''0x'' @ fmt_02x i), NumList [word]]]\<rparr>)))
   \<and> (find_addr Quint24DCRegisters i = Some (name, regdict) \<longrightarrow>
      stdout (snd (dumpall_entry i (Some [word]) w))
        = stdout w @ fst (print_value (Reg name regdict) (Words [word]) [])
      \<and> fst (print_value (Reg name regdict) (Words [word]) []) \<noteq> [])
   \<and> (i < 0x7500 \<and> responses w = Registers [word] # rest \<longrightarrow>
      dumpall_loop i w =
        (case dumpall_entry i (Some [word])
                (w\<lparr>requests := requests w @ [ReadInput i 1], responses := rest\<rparr>) of
           (Inl e, w'') \<Rightarrow> (Inl e, w'')
         | (Inr i', w'') \<Rightarrow> dumpall_loop (i' + 1) w''))"
proof -
  have l: "dumpall_loop i w =
        (case dumpall_entry i (Some [word])
                (w\<lparr>requests := requests w @ [ReadInput i 1], responses := rest\<rparr>) of
           (Inl e, w'') \<Rightarrow> (Inl e, w'')
         | (Inr i', w'') \<Rightarrow> dumpall_loop (i' + 1) w'')"
    if "i < 0x7500" and "responses w = Registers [word] # rest"
    using that by (rule dumpall_loop_step)
  have a: "dumpall_entry i (Some [65535]) w = (Inr i, w)"
    if "find_addr Quint24DCRegisters i = None"
    using that by (simp add: dumpall_entry_def)
  have b: "dumpall_entry i (Some [word]) w =
             (Inr i, w\<lparr>stdout := stdout w @ [[Str (''0x'' @ fmt_02x i), NumList [word]]]\<rparr>)"
    if "find_addr Quint24DCRegisters i = None" and "word \<noteq> 65535"
    using that
    by (simp add: dumpall_entry_def print_value_def emit_def arg_of_def arg_val_def)
  have c: "stdout (snd (dumpall_entry i (Some [word]) w))
        = stdout w @ fst (print_value (Reg name regdict) (Words [word]) [])"
    if "find_addr Quint24DCRegisters i = Some (name, regdict)"
    using that
    by (simp add: dumpall_entry_def emit_def arg_of_def Let_def split: option.splits)
  have d: "fst (print_value (Reg name regdict) (Words [word]) []) \<noteq> []"
    if "find_addr Quint24DCRegisters i = Some (name, regdict)"
  proof -
    have "\<forall>f. rvalues regdict = Some (ValFun f) \<longrightarrow> f = battery_installed_type"
      using catalog_callable find_addr_mem [OF that] by auto
    then show ?thesis
      by (rule print_value_nonempty) (rule value_of_single)
  qed
  from a b c d l show ?thesis by blast
qed


text \<open>
  The unmatched address \<open>0x74ff\<close> with the words \<open>0xFFFF\<close> and \<open>0x1234\<close>, the catalog
  register \<^verbatim>\<open>OUT_LUI_SocStateOfCharge\<close> with the word 65535, and the end of the scan run
  from \<open>0x74fe\<close>.
\<close>

theorem C6_dumpall_sentinel_witness:
  "dumpall_entry 0x74ff (Some [0xFFFF])
      \<lparr>responses = [], requests = [], stdout = [], stderr = [], closes = 0, now = []\<rparr>
     = (Inr 0x74ff, \<lparr>responses = [], requests = [], stdout = [], stderr = [], closes = 0, now = []\<rparr>)
   \<and> dumpall_entry 0x74ff (Some [0x1234])
      \<lparr>responses = [], requests = [], stdout = [], stderr = [], closes = 0, now = []\<rparr>
     = (Inr 0x74ff, \<lparr>responses = [], requests = [], stdout = [[Str ''0x74ff'', NumList [0x1234]]],
          stderr = [], closes = 0, now = []\<rparr>)
   \<and> stdout (snd (dumpall_entry 0x7435 (Some [0xFFFF])
      \<lparr>responses = [], requests = [], stdout = [], stderr = [], closes = 0, now = []\<rparr>))
     = [[Str ''OUT_LUI_SocStateOfCharge:'', Str ''not initialized'']]
   \<and> stdout (snd (dumpall_loop 0x74fe
      \<lparr>responses = [Registers [0xFFFF], Registers [0x1234]], requests = [], stdout = [],
         stderr = [], closes = 0, now = []\<rparr>))
     = [[Str ''0x74ff'', NumList [0x1234]]]"
proof -
  let ?w = "\<lparr>responses = [], requests = [], stdout = [], stderr = [], closes = 0, now = []\<rparr>"
  let ?soc = "(reg 0x7435)\<lparr>rtype := Some ''int'', runit := Some ''%'',
       rvalues := Some (ValDict [(65535, ''not initialized'')])\<rparr>"
  have f1: "find_addr Quint24DCRegisters 0x74ff = None"
    and f0: "find_addr Quint24DCRegisters 0x74fe = None"
    by (simp_all add: find_addr_def Quint24DCRegisters_def reg_def)
  have f2: "find_addr Quint24DCRegisters 0x7435 = Some (''OUT_LUI_SocStateOfCharge'', ?soc)"
    by (simp add: find_addr_def Quint24DCRegisters_def reg_def)
  have hx: "fmt_02x 0x74ff = ''74ff''"
    by (simp add: fmt_02x_def hex_digit_def)
  have pv: "print_value (Reg ''OUT_LUI_SocStateOfCharge'' ?soc) (Words [65535]) []
              = ([[Str ''OUT_LUI_SocStateOfCharge:'', Str ''not initialized'']], None)"
    by (simp add: print_value_def value_of_single decode_branch_def dict_label_def reg_def)
  have loop: "stdout (snd (dumpall_loop 0x74fe
      \<lparr>responses = [Registers [0xFFFF], Registers [0x1234]], requests = [], stdout = [],
         stderr = [], closes = 0, now = []\<rparr>))
     = [[Str ''0x74ff'', NumList [0x1234]]]"
    by (simp add: readRegister_def transact_def dumpall_entry_def f0 f1 print_value_def
          emit_def arg_of_def arg_val_def hx)
  show ?thesis
    using C6_dumpall_sentinel [where i = "0x74ff" and w = ?w and word = "0x1234",
          THEN conjunct1]
      C6_dumpall_sentinel [where i = "0x7435" and w = ?w and word = "0xFFFF"
          and name = "''OUT_LUI_SocStateOfCharge''" and regdict = ?soc,
          THEN conjunct2, THEN conjunct1]
      loop
    by (simp add: f1 f2 hx pv)
qed

text \<open>
  C7. The scan does not do what the claim says at a catalog register of length 2: at
  \<^verbatim>\<open>OUT_LUDW_ActualAlarm\<close> (\<open>0x7490\<close>) line 411 reads one word, that word alone is decoded,
  and the next read is at \<open>0x7492\<close>; the word at \<open>0x7491\<close> is never read.
\<close>

theorem C7_dumpall_reads_one_word:
  "dumpall_loop 0x7490
      \<lparr>responses = [Registers [0], Registers [1]], requests = [], stdout = [], stderr = [],
         closes = 0, now = []\<rparr>
     = (Inl Blocked,
        \<lparr>responses = [],
           requests = [ReadInput 0x7490 1, ReadInput 0x7492 1, ReadInput 0x7493 1],
           stdout = [[Str ''OUT_LUDW_ActualAlarm:'', Num 0], [Str ''0x7492'', NumList [1]]],
           stderr = [], closes = 0, now = []\<rparr>)
   \<and> get_length (snd (the (find_addr Quint24DCRegisters 0x7490))) = 2"
proof -
  let ?alarm = "(reg 0x7490)\<lparr>rtype := Some ''bits'', rlength := Some 2,
       rbits := Some [(0, ''end of life (SOH)''), (4, ''end of life (Resistance)''),
                      (5, ''end of life (Resistance)''), (6, ''end of life (Time)''),
                      (7, ''end of life (Voltage)''), (9, ''no battery''),
                      (10, ''inconsistent technology''), (11, ''overload cutoff''),
                      (12, ''low battery (Voltage)''), (13, ''low battery (Charge)''),
                      (14, ''low battery (Time)''), (16, ''service'')]\<rparr>"
  have f0: "find_addr Quint24DCRegisters 0x7490 = Some (''OUT_LUDW_ActualAlarm'', ?alarm)"
    by (simp add: find_addr_def Quint24DCRegisters_def reg_def)
  have f2: "find_addr Quint24DCRegisters 0x7492 = None"
    by (simp add: find_addr_def Quint24DCRegisters_def reg_def)
  have hx: "fmt_02x 0x7492 = ''7492''"
    by (simp add: fmt_02x_def hex_digit_def)
  have pv: "print_value (Reg ''OUT_LUDW_ActualAlarm'' ?alarm) (Words [0]) []
              = ([[Str ''OUT_LUDW_ActualAlarm:'', Num 0]], None)"
    by (simp add: print_value_def value_of_single decode_branch_def dict_label_def reg_def
          print_bits_def opt_val_def)
  have e0: "dumpall_entry 0x7490 (Some [0]) w = (Inr 0x7491, w\<lparr>stdout := stdout w @ [[Str ''OUT_LUDW_ActualAlarm:'', Num 0]]\<rparr>)" for w
    by (simp add: dumpall_entry_def f0 arg_of_def pv emit_def get_length_def)
  have e2: "dumpall_entry 0x7492 (Some [1]) w = (Inr 0x7492, w\<lparr>stdout := stdout w @ [[Str ''0x7492'', NumList [1]]]\<rparr>)" for w
    by (simp add: dumpall_entry_def f2 arg_of_def print_value_def arg_val_def hx emit_def)
  have l3: "dumpall_loop 0x7493 w = (Inl Blocked, w\<lparr>requests := requests w @ [ReadInput 0x7493 1]\<rparr>)"
    if "responses w = []" for w
    using that by (subst dumpall_loop.simps) (simp add: readRegister_def transact_def)
  show ?thesis
    by (simp add: readRegister_def transact_def e0 e2 l3 f0 get_length_def)
qed

section \<open>Properties of the set action and of transport failures\<close>

lemma transact_requests:
  "requests (snd (transact rq w)) = requests w @ [rq]"
  by (simp add: transact_def Let_def split: list.splits response.splits)

lemma writeRegister_requests:
  "requests (snd (writeRegister a v w)) = requests w @ [WriteRegs a [v]]"
proof -
  have "snd (writeRegister a v w) = snd (transact (WriteRegs a [v]) w)"
    by (simp add: writeRegister_def split: prod.splits sum.splits option.splits)
  then show ?thesis by (simp add: transact_requests)
qed

lemma set_action_found:
  assumes "length action_params = 2" and "py_int (action_params ! 1) = Some v"
    and "find_target catalog (action_params ! 0) (py_int (action_params ! 0)) = Some (name, regdict)"
  shows "snd (set_action py_int catalog action_params w) = snd (writeRegister (addr regdict) v w)"
  using assms
  by (simp add: set_action_def Let_def split: prod.splits sum.splits)

lemma set_action_literal:
  assumes "length action_params = 2" and "py_int (action_params ! 1) = Some v"
    and "find_target catalog (action_params ! 0) (py_int (action_params ! 0)) = None"
    and "py_int (action_params ! 0) = Some a"
  shows "snd (set_action py_int catalog action_params w) = snd (writeRegister a v w)"
  using assms
  by (simp add: set_action_def Let_def split: prod.splits sum.splits)

lemma find_target_mode:
  "find_target (map (\<lambda>(name, regdict). (name, regdict\<lparr>rmode := m name regdict\<rparr>)) catalog) param param_addr
     = map_option (\<lambda>(name, regdict). (name, regdict\<lparr>rmode := m name regdict\<rparr>))
         (find_target catalog param param_addr)"
  by (induction catalog) (auto simp: find_target_def)

lemma find_target_Some:
  "find_target catalog param param_addr = Some (name, regdict) \<Longrightarrow>
     (name, regdict) \<in> set catalog \<and> (param = name \<or> param_addr = Some (addr regdict))"
  by (induction catalog) (auto simp: find_target_def split: if_splits)

text \<open>
  C10. When the two parameters are given and the value parses, a set command whose target
  resolves issues exactly one request, a write of the one-element list \<open>[v]\<close>, and no
  read: to the address of the first catalog entry that has the parameter as its name or
  the parsed parameter as its address, and otherwise to the parsed parameter itself. The
  \<^verbatim>\<open>"mode"\<close> key of the catalog is never consulted: changing it in every entry changes
  nothing of what the command does.
\<close>

theorem C10_set_writes_one_word:
  assumes "length action_params = 2" and "py_int (action_params ! 1) = Some v"
  shows "(find_target catalog (action_params ! 0) (py_int (action_params ! 0)) = Some (name, regdict) \<longrightarrow>
            requests (snd (set_action py_int catalog action_params w))
              = requests w @ [WriteRegs (addr regdict) [v]]
            \<and> (name, regdict) \<in> set catalog
            \<and> (action_params ! 0 = name \<or> py_int (action_params ! 0) = Some (addr regdict)))
       \<and> (find_target catalog (action_params ! 0) (py_int (action_params ! 0)) = None
            \<and> py_int (action_params ! 0) = Some a \<longrightarrow>
            requests (snd (set_action py_int catalog action_params w))
              = requests w @ [WriteRegs a [v]])
       \<and> set_action py_int
            (map (\<lambda>(name, regdict). (name, regdict\<lparr>rmode := m name regdict\<rparr>)) catalog)
            action_params w
          = set_action py_int catalog action_params w"
proof -
  have found: "requests (snd (set_action py_int catalog action_params w))
              = requests w @ [WriteRegs (addr regdict) [v]]"
    if "find_target catalog (action_params ! 0) (py_int (action_params ! 0)) = Some (name, regdict)"
    using set_action_found [where w = w, OF assms that] by (simp add: writeRegister_requests)
  have literal: "requests (snd (set_action py_int catalog action_params w))
              = requests w @ [WriteRegs a [v]]"
    if "find_target catalog (action_params ! 0) (py_int (action_params ! 0)) = None"
      and "py_int (action_params ! 0) = Some a"
    using set_action_literal [where w = w, OF assms that] by (simp add: writeRegister_requests)
  have mode: "set_action py_int
            (map (\<lambda>(name, regdict). (name, regdict\<lparr>rmode := m name regdict\<rparr>)) catalog)
            action_params w
          = set_action py_int catalog action_params w"
    unfolding set_action_def find_target_mode
    by (cases "find_target catalog (action_params ! 0) (py_int (action_params ! 0))")
       (auto simp: Let_def split: option.splits)
  show ?thesis
    using found literal mode
      find_target_Some [of catalog "action_params ! 0" "py_int (action_params ! 0)" name regdict]
    by blast
qed


text \<open>
  \<^verbatim>\<open>set 0x3203 120\<close> (the entry marked \<^verbatim>\<open>"rw"\<close>), \<^verbatim>\<open>set FW_VERSION 120\<close> (an entry
  without the mark) and \<^verbatim>\<open>set 0x1234 120\<close> (no entry), with a parser that knows these
  three literals.
\<close>

theorem C10_set_writes_one_word_witness:
  "requests (snd (set_action
       (\<lambda>s. if s = ''0x3203'' then Some 0x3203 else if s = ''0x1234'' then Some 0x1234
            else if s = ''120'' then Some 120 else None)
       Quint24DCRegisters [''0x3203'', ''120'']
       \<lparr>responses = [Registers []], requests = [], stdout = [], stderr = [], closes = 0, now = []\<rparr>))
     = [WriteRegs 0x3203 [120]]
   \<and> requests (snd (set_action
       (\<lambda>s. if s = ''0x3203'' then Some 0x3203 else if s = ''0x1234'' then Some 0x1234
            else if s = ''120'' then Some 120 else None)
       Quint24DCRegisters [''FW_VERSION'', ''120'']
       \<lparr>responses = [Registers []], requests = [], stdout = [], stderr = [], closes = 0, now = []\<rparr>))
     = [WriteRegs 0x1602 [120]]
   \<and> requests (snd (set_action
       (\<lambda>s. if s = ''0x3203'' then Some 0x3203 else if s = ''0x1234'' then Some 0x1234
            else if s = ''120'' then Some 120 else None)
       Quint24DCRegisters [''0x1234'', ''120'']
       \<lparr>responses = [Registers []], requests = [], stdout = [], stderr = [], closes = 0, now = []\<rparr>))
     = [WriteRegs 0x1234 [120]]
   \<and> map_option rmode (map_of Quint24DCRegisters ''TIME_LIMIT_MODE_CUSTOM_BUFFER_TIME'')
     = Some (Some ''rw'')
   \<and> map_option rmode (map_of Quint24DCRegisters ''FW_VERSION'') = Some None"
proof -
  let ?P = "\<lambda>s. if s = ''0x3203'' then Some (0x3203 :: int) else if s = ''0x1234'' then Some 0x1234
            else if s = ''120'' then Some 120 else None"
  let ?w = "\<lparr>responses = [Registers []], requests = [], stdout = [], stderr = [], closes = 0, now = []\<rparr>"
  let ?tl = "(reg 0x3203)\<lparr>rmode := Some ''rw'',
       rdescription := Some ''seconds after power loss until output voltage is turned off (in custom mode only)''\<rparr>"
  have l: "length [''0x3203'', ''120''] = 2" "length [''FW_VERSION'', ''120''] = 2"
    "length [''0x1234'', ''120''] = 2"
    by simp_all
  have v: "?P ([''0x3203'', ''120''] ! 1) = Some 120" "?P ([''FW_VERSION'', ''120''] ! 1) = Some 120"
    "?P ([''0x1234'', ''120''] ! 1) = Some 120"
    by simp_all
  have f1: "find_target Quint24DCRegisters ([''0x3203'', ''120''] ! 0) (?P ([''0x3203'', ''120''] ! 0))
      = Some (''TIME_LIMIT_MODE_CUSTOM_BUFFER_TIME'', ?tl)"
    by (simp add: find_target_def Quint24DCRegisters_def reg_def)
  have f2: "find_target Quint24DCRegisters ([''FW_VERSION'', ''120''] ! 0) (?P ([''FW_VERSION'', ''120''] ! 0))
      = Some (''FW_VERSION'', reg 0x1602)"
    by (simp add: find_target_def Quint24DCRegisters_def reg_def)
  have f3: "find_target Quint24DCRegisters ([''0x1234'', ''120''] ! 0) (?P ([''0x1234'', ''120''] ! 0))
      = None"
    by (simp add: find_target_def Quint24DCRegisters_def reg_def)
  have p3: "?P ([''0x1234'', ''120''] ! 0) = Some 0x1234"
    by simp
  have m: "map_option rmode (map_of Quint24DCRegisters ''TIME_LIMIT_MODE_CUSTOM_BUFFER_TIME'')
     = Some (Some ''rw'')" "map_option rmode (map_of Quint24DCRegisters ''FW_VERSION'') = Some None"
    by (simp_all add: Quint24DCRegisters_def reg_def)
  have a1: "addr ?tl = 0x3203" and a2: "addr (reg 0x1602) = 0x1602"
    by (simp_all add: reg_def)
  from C10_set_writes_one_word [where py_int = ?P and catalog = Quint24DCRegisters and w = ?w,
      OF l(1) v(1)] f1 a1
  have r1: "requests (snd (set_action ?P Quint24DCRegisters [''0x3203'', ''120''] ?w))
     = [WriteRegs 0x3203 [120]]"
    by fastforce
  from C10_set_writes_one_word [where py_int = ?P and catalog = Quint24DCRegisters and w = ?w,
      OF l(2) v(2)] f2 a2
  have r2: "requests (snd (set_action ?P Quint24DCRegisters [''FW_VERSION'', ''120''] ?w))
     = [WriteRegs 0x1602 [120]]"
    by fastforce
  from C10_set_writes_one_word [where py_int = ?P and catalog = Quint24DCRegisters and w = ?w,
      OF l(3) v(3)] f3 p3
  have r3: "requests (snd (set_action ?P Quint24DCRegisters [''0x1234'', ''120''] ?w))
     = [WriteRegs 0x1234 [120]]"
    by fastforce
  from r1 r2 r3 m show ?thesis by blast
qed


lemma transact_failure:
  assumes "responses w = r # rest" and "\<forall>regs. r \<noteq> Registers regs"
  shows "transact rq w =
           (Inr None, w\<lparr>requests := requests w @ [rq], responses := rest,
                          stdout := stdout w @ diagnostic r, closes := closes w + 1\<rparr>)"
  using assms by (cases r) (simp_all add: transact_def)

lemma read_range_failure:
  assumes "responses w = r # rest" and "\<forall>regs. r \<noteq> Registers regs"
    and "int (length buffer) < endaddr - start"
  shows "read_range start endaddr buffer w =
           (Inl TypeError,
            w\<lparr>requests := requests w @ [ReadInput (start + int (length buffer)) 0x10],
               responses := rest, stdout := stdout w @ diagnostic r, closes := closes w + 1\<rparr>)"
  using assms(3)
  by (subst read_range.simps) (simp add: readRegister_def transact_failure [OF assms(1,2)])

text \<open>
  C5. When the library raises or answers with an error, \<^verbatim>\<open>readRegister\<close> and
  \<^verbatim>\<open>writeRegister\<close> print the diagnostic, close the client and return \<^verbatim>\<open>None\<close>. The
  monitor does not do what the claim says with that result: line 450 passes it to
  \<^verbatim>\<open>values.extend\<close>, which raises \<^verbatim>\<open>TypeError\<close>, and the exception ends the whole loop,
  not only the cycle.
\<close>

theorem C5_failed_read_raises_in_monitor:
  assumes "responses w = r # rest" and "\<forall>regs. r \<noteq> Registers regs"
  shows "readRegister a c w =
           (Inr None, w\<lparr>requests := requests w @ [ReadInput a (if c = 0 then 0x10 else c)],
                          responses := rest, stdout := stdout w @ diagnostic r,
                          closes := closes w + 1\<rparr>)
       \<and> writeRegister a v w =
           (Inr None, w\<lparr>requests := requests w @ [WriteRegs a [v]], responses := rest,
                          stdout := stdout w @ diagnostic r, closes := closes w + 1\<rparr>)
       \<and> monitor_loop (Suc n) cfg first prior w =
           (Inl TypeError, w\<lparr>requests := requests w @ [ReadInput 0x6c00 0x10],
                          responses := rest, stdout := stdout w @ diagnostic r,
                          closes := closes w + 1\<rparr>)"
proof -
  have rd: "readRegister a c w =
           (Inr None, w\<lparr>requests := requests w @ [ReadInput a (if c = 0 then 0x10 else c)],
                          responses := rest, stdout := stdout w @ diagnostic r,
                          closes := closes w + 1\<rparr>)"
    by (simp add: readRegister_def transact_failure [OF assms])
  have wr: "writeRegister a v w =
           (Inr None, w\<lparr>requests := requests w @ [WriteRegs a [v]], responses := rest,
                          stdout := stdout w @ diagnostic r, closes := closes w + 1\<rparr>)"
    by (simp add: writeRegister_def transact_failure [OF assms])
  have rr: "read_range 0x6c00 0x6c50 [] w =
           (Inl TypeError, w\<lparr>requests := requests w @ [ReadInput 0x6c00 0x10],
                          responses := rest, stdout := stdout w @ diagnostic r,
                          closes := closes w + 1\<rparr>)"
    using read_range_failure [OF assms, of "[]" "0x6c50" "0x6c00"] by simp
  have ml: "monitor_loop (Suc n) cfg first prior w =
           (Inl TypeError, w\<lparr>requests := requests w @ [ReadInput 0x6c00 0x10],
                          responses := rest, stdout := stdout w @ diagnostic r,
                          closes := closes w + 1\<rparr>)"
    by (simp add: Quint24DCMonitorRegisters_def rr del: read_range.simps)
  from rd wr ml show ?thesis by blast
qed

text \<open>The monitor started on a device whose first read fails.\<close>

theorem C5_failed_read_witness:
  "monitor 3 None None []
      \<lparr>responses = [ModbusException ''No response''], requests = [], stdout = [], stderr = [],
         closes = 0, now = []\<rparr>
     = (Inl TypeError,
        \<lparr>responses = [], requests = [ReadInput 0x6c00 0x10],
           stdout = [[Str ''Received ModbusException(No response) from library'']],
           stderr = [], closes = 1, now = []\<rparr>)"
proof -
  let ?w = "\<lparr>responses = [ModbusException ''No response''], requests = [], stdout = [],
              stderr = [], closes = 0, now = []\<rparr>"
  have r: "responses ?w = [ModbusException ''No response'']"
    and f: "\<forall>regs. ModbusException ''No response'' \<noteq> Registers regs"
    by simp_all
  have sk: "\<exists>skip. add_default_skip default_skip [] = Inr skip"
    by (simp add: default_skip_def Quint24DCRegisters_def)
  then obtain skip where s: "add_default_skip default_skip [] = Inr skip" ..
  have three: "(3::nat) = Suc 2" by simp
  show ?thesis
    unfolding monitor_def s three
    using C5_failed_read_raises_in_monitor [OF r f, of _ _ _ 2
        "\<lparr>min_change_rel = None, min_change_abs = None, skip_addr = skip\<rparr>" True Map.empty]
    by (simp add: diagnostic_def)
qed

section \<open>Properties of the warm-up cycle\<close>

lemma idx_inc_catalog_pos: "0 < idx_inc (find_addr Quint24DCRegisters a)"
proof (cases "find_addr Quint24DCRegisters a")
  case None
  then show ?thesis by (simp add: idx_inc_def)
next
  case (Some nr)
  have "\<forall>nr \<in> set Quint24DCRegisters. 0 < get_length (snd nr)"
    by (simp add: Quint24DCRegisters_def get_length_def reg_def)
  then have "0 < get_length (snd nr)"
    using find_addr_mem [OF Some] by blast
  then show ?thesis
    by (simp add: Some idx_inc_def split_beta)
qed

lemma monitor_entry_first:
  "monitor_entry cfg True a cur buffer idx prior w
     = (Inr (prior(a \<mapsto> register_value cur buffer idx)), w)"
  by (simp add: monitor_entry_def monitor_report_def)

lemma monitor_walk_first:
  "\<exists>prior'. monitor_walk cfg True start buffer idx prior w = (Inr prior', w)"
proof (induction cfg True start buffer idx prior w rule: monitor_walk.induct)
  case (1 cfg start buffer idx prior w)
  show ?case
  proof (cases "idx < length buffer")
    case False
    then show ?thesis by (subst monitor_walk.simps) simp
  next
    case True
    show ?thesis
    proof (cases "start + int idx \<in> set (skip_addr cfg)")
      case skip: True
      from "1.hyps"(1) [OF True skip] show ?thesis
        by (subst monitor_walk.simps) (simp add: True skip)
    next
      case noskip: False
      from "1.hyps"(2) [OF True noskip monitor_entry_first [symmetric] refl] show ?thesis
        by (subst monitor_walk.simps) (simp add: True noskip monitor_entry_first)
    qed
  qed
qed


lemma monitor_walk_first_unfold:
  assumes "idx < length buffer"
  shows "monitor_walk cfg True start buffer idx prior w =
           monitor_walk cfg True start buffer
             (idx + idx_inc (find_addr Quint24DCRegisters (start + int idx)))
             (if start + int idx \<in> set (skip_addr cfg) then prior
              else prior(start + int idx \<mapsto>
                     register_value (find_addr Quint24DCRegisters (start + int idx)) buffer idx))
             w"
  using assms by (subst monitor_walk.simps) (simp add: monitor_entry_first)

lemma monitor_walk_prior_below:
  "monitor_walk cfg True start buffer idx prior w = (Inr prior', w') \<Longrightarrow>
     a < start + int idx \<Longrightarrow> prior' a = prior a"
proof (induction cfg True start buffer idx prior w rule: monitor_walk.induct)
  case (1 cfg start buffer idx prior w)
  show ?case
  proof (cases "idx < length buffer")
    case False
    with "1.prems" show ?thesis by (subst (asm) monitor_walk.simps) simp
  next
    case True
    let ?next = "idx + idx_inc (find_addr Quint24DCRegisters (start + int idx))"
    have lt: "a < start + int ?next"
      using "1.prems"(2) by simp
    show ?thesis
    proof (cases "start + int idx \<in> set (skip_addr cfg)")
      case skip: True
      have "monitor_walk cfg True start buffer ?next prior w = (Inr prior', w')"
        using "1.prems"(1) monitor_walk_first_unfold [OF True, of cfg start prior w] skip by simp
      from "1.hyps"(1) [OF True skip this lt] show ?thesis .
    next
      case noskip: False
      let ?p = "prior(start + int idx \<mapsto>
                     register_value (find_addr Quint24DCRegisters (start + int idx)) buffer idx)"
      have "monitor_walk cfg True start buffer ?next ?p w = (Inr prior', w')"
        using "1.prems"(1) monitor_walk_first_unfold [OF True, of cfg start prior w] noskip by simp
      from "1.hyps"(2) [OF True noskip monitor_entry_first [symmetric] refl this lt]
      have "prior' a = ?p a" .
      then show ?thesis using "1.prems"(2) by simp
    qed
  qed
qed

lemma monitor_walk_baseline:
  "monitor_walk cfg True start buffer idx prior w = (Inr prior', w') \<Longrightarrow>
     i \<in> set (walk_indices start (length buffer) idx) \<Longrightarrow>
     start + int i \<notin> set (skip_addr cfg) \<Longrightarrow>
     prior' (start + int i)
       = Some (register_value (find_addr Quint24DCRegisters (start + int i)) buffer i)"
proof (induction cfg True start buffer idx prior w rule: monitor_walk.induct)
  case (1 cfg start buffer idx prior w)
  show ?case
  proof (cases "idx < length buffer")
    case False
    with "1.prems"(2) show ?thesis
      by (subst (asm) walk_indices.simps) simp
  next
    case True
    let ?next = "idx + idx_inc (find_addr Quint24DCRegisters (start + int idx))"
    let ?p = "prior(start + int idx \<mapsto>
                     register_value (find_addr Quint24DCRegisters (start + int idx)) buffer idx)"
    have mem: "i = idx \<or> i \<in> set (walk_indices start (length buffer) ?next)"
      using "1.prems"(2) True
      by (subst (asm) walk_indices.simps) simp
    have pos: "idx < ?next"
      using idx_inc_catalog_pos by simp
    show ?thesis
    proof (cases "start + int idx \<in> set (skip_addr cfg)")
      case skip: True
      then have ne: "i \<noteq> idx" using "1.prems"(3) by auto
      have w: "monitor_walk cfg True start buffer ?next prior w = (Inr prior', w')"
        using "1.prems"(1) monitor_walk_first_unfold [OF True, of cfg start prior w] skip by simp
      from "1.hyps"(1) [OF True skip w _ "1.prems"(3)] mem ne show ?thesis by blast
    next
      case noskip: False
      have w: "monitor_walk cfg True start buffer ?next ?p w = (Inr prior', w')"
        using "1.prems"(1) monitor_walk_first_unfold [OF True, of cfg start prior w] noskip by simp
      show ?thesis
      proof (cases "i = idx")
        case True
        have "prior' (start + int idx) = ?p (start + int idx)"
          using monitor_walk_prior_below [OF w, of "start + int idx"] pos by simp
        then show ?thesis using True by simp
      next
        case False
        with mem have "i \<in> set (walk_indices start (length buffer) ?next)" by blast
        from "1.hyps"(2) [OF \<open>idx < length buffer\<close> noskip monitor_entry_first [symmetric] refl w
            this "1.prems"(3)]
        show ?thesis .
      qed
    qed
  qed
qed


lemma readRegister_cases:
  "readRegister a c w = (res, w') \<Longrightarrow>
     (res = Inl Blocked \<and> responses w = [] \<and> responses w' = [] \<and> stdout w' = stdout w)
     \<or> (\<exists>r rest. responses w = r # rest \<and> responses w' = rest
           \<and> ((\<exists>regs. r = Registers regs \<and> res = Inr (Some regs) \<and> stdout w' = stdout w)
               \<or> (res = Inr None \<and> stdout w' = stdout w @ diagnostic r)))"
  by (cases "responses w"; cases "hd (responses w)")
     (auto simp: readRegister_def transact_def Let_def)

lemma read_range_stdout:
  "read_range start endaddr buffer w = (res, w') \<Longrightarrow>
     set (responses w') \<subseteq> set (responses w)
     \<and> (\<forall>buf. res = Inr buf \<longrightarrow> stdout w' = stdout w)
     \<and> (\<forall>e. res = Inl e \<longrightarrow>
           stdout w' = stdout w \<or> (\<exists>r \<in> set (responses w). stdout w' = stdout w @ diagnostic r))"
proof (induction start endaddr buffer w rule: read_range.induct)
  case (1 start endaddr buffer w)
  show ?case
  proof (cases "int (length buffer) < endaddr - start")
    case False
    with "1.prems" show ?thesis by (subst (asm) read_range.simps) simp
  next
    case True
    obtain r1 w1 where rd: "readRegister (start + int (length buffer)) 0 w = (r1, w1)"
      by (cases "readRegister (start + int (length buffer)) 0 w")
    from readRegister_cases [OF rd] show ?thesis
    proof (elim disjE conjE exE)
      assume "r1 = Inl Blocked" "responses w = []" "responses w1 = []" "stdout w1 = stdout w"
      with "1.prems" True rd show ?thesis
        by (subst (asm) read_range.simps) auto
    next
      fix r rest regs
      assume a: "responses w = r # rest" "responses w1 = rest" "r = Registers regs"
        "r1 = Inr (Some regs)" "stdout w1 = stdout w"
      have rec: "read_range start endaddr (buffer @ regs) w1 = (res, w')"
        using "1.prems" True rd a(4) by (subst (asm) read_range.simps) simp
      from "1.IH" [OF True rd [symmetric] a(4) refl rec] a show ?thesis
        by auto
    next
      fix r rest
      assume a: "responses w = r # rest" "responses w1 = rest" "r1 = Inr None"
        "stdout w1 = stdout w @ diagnostic r"
      have "res = Inl TypeError" "w' = w1"
        using "1.prems" True rd a(3) by (subst (asm) read_range.simps, simp)+
      with a show ?thesis by auto
    qed
  qed
qed

lemma monitor_ranges_stdout:
  "monitor_ranges cfg True ranges prior w = (res, w') \<Longrightarrow>
     set (responses w') \<subseteq> set (responses w)
     \<and> (\<forall>p. res = Inr p \<longrightarrow> stdout w' = stdout w)
     \<and> (\<forall>e. res = Inl e \<longrightarrow>
           stdout w' = stdout w \<or> (\<exists>r \<in> set (responses w). stdout w' = stdout w @ diagnostic r))"
proof (induction ranges arbitrary: prior w)
  case Nil
  then show ?case by simp
next
  case (Cons range ranges)
  obtain start endaddr where range: "range = (start, endaddr)"
    by (cases range)
  obtain r1 w1 where rr: "read_range start endaddr [] w = (r1, w1)"
    by (cases "read_range start endaddr [] w")
  note st = read_range_stdout [OF rr]
  show ?case
  proof (cases r1)
    case (Inl e)
    with Cons.prems range rr have "res = Inl e" "w' = w1" by simp_all
    with st Inl show ?thesis by auto
  next
    case (Inr buf)
    obtain prior1 where wk: "monitor_walk cfg True start buf 0 prior w1 = (Inr prior1, w1)"
      using monitor_walk_first by blast
    have "monitor_ranges cfg True ranges prior1 w1 = (res, w')"
      using Cons.prems range rr Inr wk by simp
    from Cons.IH [OF this] st Inr show ?thesis
      by auto
  qed
qed


lemma add_default_skip_defaults:
  "add_default_skip default_skip user_skip =
     Inr (user_skip @ [0x6c0c, 0x6c10, 0x7430, 0x7477, 0x7431,
                       0x740b, 0x740c, 0x740d, 0x7432, 0x743c, 0x743d, 0x746c, 0x7478])"
  by (simp add: default_skip_def Quint24DCRegisters_def reg_def)

section \<open>Properties of the rounding to a double\<close>

text \<open>
  Rounding to nearest never crosses a double: a positive quotient that is not above a
  double \<open>r\<close> is rounded to a double that is not above \<open>r\<close>.
\<close>

lemma floor_log2_bounds:
  assumes "0 < x"
  shows "2 powi floor_log2 x \<le> x" and "x < 2 powi (floor_log2 x + 1)"
proof -
  have "2 powi floor_log2 x \<le> x \<and> x < 2 powi (floor_log2 x + 1)"
  proof (cases "1 \<le> x")
    case True
    let ?n = "\<lfloor>x\<rfloor>"
    have n: "0 < ?n" using True by simp
    have b1: "1 \<le> bitlen ?n"
      using n bitlen_eq_zero_iff [of ?n] bitlen_nonneg [of ?n] by linarith
    from bitlen_bounds [OF n]
    have lo: "(2::int) ^ nat (bitlen ?n - 1) \<le> ?n" and hi: "?n < 2 ^ nat (bitlen ?n)"
      by simp_all
    have "(2::rat) powi (bitlen ?n - 1) = of_int (2 ^ nat (bitlen ?n - 1))"
      using b1 by (simp add: power_int_def)
    also have "\<dots> \<le> of_int ?n"
      using lo by (simp only: of_int_le_iff)
    also have "\<dots> \<le> x" by simp
    finally have l: "2 powi (bitlen ?n - 1) \<le> x" .
    have "?n + 1 \<le> 2 ^ nat (bitlen ?n)" using hi by simp
    then have "(of_int (?n + 1) :: rat) \<le> of_int (2 ^ nat (bitlen ?n))"
      by (simp only: of_int_le_iff)
    moreover have "x < of_int (?n + 1)" by linarith
    ultimately have "x < of_int (2 ^ nat (bitlen ?n))" by linarith
    also have "\<dots> = 2 powi (bitlen ?n)"
      using b1 by (simp add: power_int_def)
    finally have h: "x < 2 powi (bitlen ?n - 1 + 1)" by simp
    from l h True show ?thesis by (simp add: floor_log2_def)
  next
    case False
    let ?y = "1 / x"
    let ?n = "\<lceil>?y\<rceil> - 1"
    have y1: "1 < ?y" using False assms by simp
    have n: "0 < ?n" using y1 by linarith
    have b1: "1 \<le> bitlen ?n"
      using n bitlen_eq_zero_iff [of ?n] bitlen_nonneg [of ?n] by linarith
    from bitlen_bounds [OF n]
    have lo: "(2::int) ^ nat (bitlen ?n - 1) \<le> ?n" and hi: "?n < 2 ^ nat (bitlen ?n)"
      by simp_all
    have "?n + 1 \<le> 2 ^ nat (bitlen ?n)" using hi by simp
    then have "(of_int (?n + 1) :: rat) \<le> of_int (2 ^ nat (bitlen ?n))"
      by (simp only: of_int_le_iff)
    moreover have "?y \<le> of_int (?n + 1)" by simp
    ultimately have "?y \<le> of_int (2 ^ nat (bitlen ?n))" by linarith
    also have "\<dots> = 2 powi (bitlen ?n)"
      using b1 by (simp add: power_int_def)
    finally have yh: "?y \<le> 2 powi (bitlen ?n)" .
    have p: "(0::rat) < 2 powi (bitlen ?n)" by simp
    have "1 \<le> x * 2 powi (bitlen ?n)"
      using yh assms by (simp add: field_simps)
    then have l: "2 powi (- bitlen ?n) \<le> x"
      using p by (simp add: power_int_minus field_simps)
    have "(of_int (2 ^ nat (bitlen ?n - 1)) :: rat) \<le> of_int ?n"
      using lo by (simp only: of_int_le_iff)
    moreover have "of_int ?n < ?y" by linarith
    ultimately have "of_int (2 ^ nat (bitlen ?n - 1)) < ?y" by linarith
    moreover have "(of_int (2 ^ nat (bitlen ?n - 1)) :: rat) = 2 powi (bitlen ?n - 1)"
      using b1 by (simp add: power_int_def)
    ultimately have yl: "2 powi (bitlen ?n - 1) < ?y" by simp
    have q: "(0::rat) < 2 powi (bitlen ?n - 1)" by simp
    have e: "(2::rat) powi (- (bitlen ?n - 1)) = 1 / 2 powi (bitlen ?n - 1)"
      by (rule power_int_minus_divide)
    have "x * 2 powi (bitlen ?n - 1) < 1"
      using yl assms by (simp add: field_simps)
    then have "x < 1 / 2 powi (bitlen ?n - 1)"
      using q by (simp add: pos_less_divide_eq)
    then have "x < 2 powi (- (bitlen ?n - 1))"
      by (simp only: e)
    moreover have "- (bitlen ?n - 1) = - bitlen ?n + 1" by simp
    ultimately have h: "x < 2 powi (- bitlen ?n + 1)" by simp
    from l h False show ?thesis by (simp add: floor_log2_def)
  qed
  then show "2 powi floor_log2 x \<le> x" and "x < 2 powi (floor_log2 x + 1)"
    by simp_all
qed

lemma expo_ge: "- 1074 \<le> expo x"
  by (simp add: expo_def)

lemma expo_upper:
  assumes "0 < x"
  shows "x < 2 powi (expo x + 53)"
proof -
  have "floor_log2 x + 1 \<le> expo x + 53" by (simp add: expo_def)
  then have "(2::rat) powi (floor_log2 x + 1) \<le> 2 powi (expo x + 53)"
    by (intro power_int_increasing) simp_all
  with floor_log2_bounds(2) [OF assms] show ?thesis by linarith
qed

lemma expo_lower:
  assumes "0 < x" and "- 1074 < expo x"
  shows "2 powi (expo x + 52) \<le> x"
proof -
  have "expo x = floor_log2 x - 52" using assms(2) by (simp add: expo_def max_def split: if_splits)
  then show ?thesis using floor_log2_bounds(1) [OF assms(1)] by simp
qed

lemma round_half_even_le:
  assumes "y \<le> of_int m"
  shows "round_half_even y \<le> m"
proof (cases "y = of_int m")
  case True
  then show ?thesis by (simp add: round_half_even_def)
next
  case False
  with assms have "y < of_int m" by simp
  then have "\<lfloor>y\<rfloor> < m" by (simp add: floor_less_iff)
  then show ?thesis by (simp add: round_half_even_def Let_def)
qed

lemma round_half_even_ge:
  assumes "of_int m \<le> y"
  shows "m \<le> round_half_even y"
proof -
  have "m \<le> \<lfloor>y\<rfloor>" using assms by (simp add: le_floor_iff)
  then show ?thesis by (simp add: round_half_even_def Let_def)
qed


lemma round_pos_le_double:
  assumes "0 < q" and "q \<le> r" and "is_double r"
  shows "round_pos q \<le> r"
proof -
  have r0: "0 < r" using assms(1,2) by simp
  let ?Pq = "(2::rat) powi expo q"
  let ?Pr = "(2::rat) powi expo r"
  let ?M = "round_half_even (r / ?Pr)"
  have Pq: "0 < ?Pq" and Pr: "0 < ?Pr" by simp_all
  have "round_pos r = r"
    using assms(3) r0 by (simp add: is_double_def round_double_def)
  then have rM: "r = of_int ?M * ?Pr"
    by (simp add: round_pos_def)
  consider (eq) "expo q = expo r" | (lt) "expo q < expo r" | (gt) "expo r < expo q"
    by linarith
  then show ?thesis
  proof cases
    case eq
    have "r / ?Pr = of_int ?M"
      using rM Pr by (simp add: field_simps)
    moreover have "q / ?Pr \<le> r / ?Pr"
      using assms(2) Pr by (simp add: divide_right_mono)
    ultimately have "q / ?Pr \<le> of_int ?M" by simp
    then have "round_half_even (q / ?Pr) \<le> ?M"
      by (rule round_half_even_le)
    then have "(of_int (round_half_even (q / ?Pr)) :: rat) \<le> of_int ?M"
      by (simp only: of_int_le_iff)
    then have "of_int (round_half_even (q / ?Pr)) * ?Pr \<le> of_int ?M * ?Pr"
      using Pr by (simp add: mult_right_mono)
    then show ?thesis
      using rM eq by (simp add: round_pos_def)
  next
    case lt
    have "q < 2 powi (expo q + 53)"
      by (rule expo_upper [OF assms(1)])
    also have "\<dots> = ?Pq * 2 powi 53"
      by (simp add: power_int_add)
    finally have "q / ?Pq < 2 powi 53"
      using Pq by (simp add: pos_divide_less_eq mult.commute)
    then have "q / ?Pq \<le> of_int (2 ^ 53)"
      by simp
    then have "round_half_even (q / ?Pq) \<le> 2 ^ 53"
      by (rule round_half_even_le)
    then have "(of_int (round_half_even (q / ?Pq)) :: rat) \<le> of_int (2 ^ 53)"
      by (simp only: of_int_le_iff)
    then have "of_int (round_half_even (q / ?Pq)) * ?Pq \<le> of_int (2 ^ 53) * ?Pq"
      using Pq by (simp add: mult_right_mono)
    also have "of_int (2 ^ 53) * ?Pq = 2 powi (expo q + 53)"
      by (simp add: power_int_add)
    also have "\<dots> \<le> 2 powi (expo r + 52)"
      using lt by (intro power_int_increasing) simp_all
    also have "\<dots> \<le> r"
      using lt expo_ge [of q] by (intro expo_lower [OF r0]) simp
    finally show ?thesis
      by (simp add: round_pos_def)
  next
    case gt
    have "2 powi (expo q + 52) \<le> q"
      using gt expo_ge [of r] by (intro expo_lower [OF assms(1)]) simp
    also have "q \<le> r" by (rule assms(2))
    also have "r < 2 powi (expo r + 53)"
      by (rule expo_upper [OF r0])
    also have "\<dots> \<le> 2 powi (expo q + 52)"
      using gt by (intro power_int_increasing) simp_all
    finally show ?thesis by simp
  qed
qed

lemma gt_float_round_imp_exact:
  assumes "0 < q" and "is_float r" and "gt_float (round_double q) r"
  shows "gt_float q r"
proof (cases r)
  case (Finite rq)
  show ?thesis
  proof (rule ccontr)
    assume "\<not> gt_float q r"
    then have le: "q \<le> rq" using Finite by (simp add: gt_float_def)
    have "is_double rq" using assms(2) Finite by (simp add: is_float_def)
    from round_pos_le_double [OF assms(1) le this] assms(1,3) Finite show False
      by (simp add: gt_float_def round_double_def)
  qed
qed (use assms in \<open>simp_all add: gt_float_def\<close>)

lemma true_div_Inr:
  "true_div a b = Inr x \<Longrightarrow> b \<noteq> 0 \<and> x = round_double (of_int a / of_int b)"
  by (simp add: true_div_def Let_def split: if_splits)

section \<open>Properties of the walk after warm-up\<close>

text \<open>
  The decision of lines 482-487 at a register with a prior value, in the arithmetic of the
  code, and the lines a complete walk prints.
\<close>

lemma show_value_True_iff:
  "show_value cfg (Some p) v = Inr True \<longleftrightarrow>
     v \<noteq> p
     \<and> (case min_change_rel cfg of
          None \<Rightarrow> True
        | Some r \<Rightarrow>
            p = 0 \<or> (case true_div \<bar>v - p\<bar> p of Inl e \<Rightarrow> False | Inr x \<Rightarrow> gt_float x r))
     \<and> (case min_change_abs cfg of
          None \<Rightarrow> True
        | Some t \<Rightarrow> gt_float (of_int \<bar>v - p\<bar>) t)"
proof -
  have ab: "\<bar>p - v\<bar> = \<bar>v - p\<bar>" by simp
  show ?thesis
    unfolding show_value_def rel_change_def ab
    by (cases "min_change_rel cfg"; cases "min_change_abs cfg"; cases "true_div \<bar>v - p\<bar> p")
       (auto simp: abs_minus_commute)
qed

lemma show_value_no_thresholds:
  "min_change_rel cfg = None \<Longrightarrow> min_change_abs cfg = None \<Longrightarrow>
     show_value cfg (Some p) v = Inr (v \<noteq> p)"
  by (auto simp: show_value_def)

lemma monitor_report_lines:
  "stdout (snd (monitor_report cfg False info a v prior w))
     = stdout w @ (if show_value cfg (prior a) v = Inr True
                   then fst (print_value info (Scalar v) (now w @ '' '')) else [])"
proof (cases "show_value cfg (prior a) v")
  case (Inl e)
  then show ?thesis by (simp add: monitor_report_def)
next
  case (Inr b)
  then show ?thesis by (cases b) (simp_all add: monitor_report_def emit_stdout)
qed

lemma monitor_entry_stdout:
  "stdout (snd (monitor_entry cfg False (start + int i)
                  (find_addr Quint24DCRegisters (start + int i)) buffer i prior w))
     = stdout w @ entry_lines cfg prior (now w) start buffer i"
  unfolding monitor_entry_world monitor_report_lines
  by (simp add: entry_lines_def Let_def)

lemma monitor_entry_now:
  "now (snd (monitor_entry cfg first a cur buffer i prior w)) = now w"
  by (simp add: monitor_entry_def monitor_report_def Let_def emit_def
        split: prod.splits sum.splits option.splits)

lemma walk_indices_ge:
  "i \<in> set (walk_indices start n idx) \<Longrightarrow> idx \<le> i"
proof (induction start n idx rule: walk_indices.induct)
  case (1 start n idx)
  show ?case
  proof (cases "idx < n")
    case False
    with "1.prems" show ?thesis by (subst (asm) walk_indices.simps) simp
  next
    case True
    from "1.prems" True
    have "i = idx \<or> i \<in> set (walk_indices start n
            (idx + idx_inc (find_addr Quint24DCRegisters (start + int idx))))"
      by (subst (asm) walk_indices.simps) simp
    with "1.IH" [OF True] show ?thesis by auto
  qed
qed


lemma monitor_entry_success:
  assumes "monitor_entry cfg False (start + int i)
             (find_addr Quint24DCRegisters (start + int i)) buffer i prior w = (Inr prior1, w1)"
  shows "w1 = w\<lparr>stdout := stdout w @ entry_lines cfg prior (now w) start buffer i\<rparr>"
proof (cases "show_value cfg (prior (start + int i))
               (register_value (find_addr Quint24DCRegisters (start + int i)) buffer i)")
  case (Inl e)
  with assms show ?thesis
    by (simp add: monitor_entry_def monitor_report_def Let_def)
next
  case (Inr b)
  with assms show ?thesis
    by (cases b)
       (auto simp: monitor_entry_def monitor_report_def Let_def emit_def entry_lines_def
          split: option.splits)
qed

lemma entry_lines_cong:
  "prior1 (start + int i) = prior (start + int i) \<Longrightarrow>
     entry_lines cfg prior1 stamp start buffer i = entry_lines cfg prior stamp start buffer i"
  by (simp add: entry_lines_def)

lemma walk_indices_unfold:
  "idx < n \<Longrightarrow>
     walk_indices start n idx
       = idx # walk_indices start n (idx + idx_inc (find_addr Quint24DCRegisters (start + int idx)))"
  by (subst walk_indices.simps) simp

lemma walk_indices_done: "\<not> idx < n \<Longrightarrow> walk_indices start n idx = []"
  by (subst walk_indices.simps) simp

lemma monitor_walk_report:
  "monitor_walk cfg False start buffer idx prior w = (Inr prior', w') \<Longrightarrow>
     w' = w\<lparr>stdout := stdout w @
               concat (map (entry_lines cfg prior (now w) start buffer)
                         (filter (\<lambda>i. start + int i \<notin> set (skip_addr cfg))
                            (walk_indices start (length buffer) idx)))\<rparr>
     \<and> prior' = record_values start buffer
                  (filter (\<lambda>i. start + int i \<notin> set (skip_addr cfg))
                     (walk_indices start (length buffer) idx)) prior"
proof (induction cfg False start buffer idx prior w rule: monitor_walk.induct)
  case (1 cfg start buffer idx prior w)
  show ?case
  proof (cases "idx < length buffer")
    case False
    with "1.prems" show ?thesis
      by (subst (asm) monitor_walk.simps) (simp add: walk_indices_done record_values_def)
  next
    case True
    let ?next = "idx + idx_inc (find_addr Quint24DCRegisters (start + int idx))"
    let ?keep = "\<lambda>i. start + int i \<notin> set (skip_addr cfg)"
    let ?rest = "filter ?keep (walk_indices start (length buffer) ?next)"
    note wi = walk_indices_unfold [OF True, of start]
    show ?thesis
    proof (cases "start + int idx \<in> set (skip_addr cfg)")
      case skip: True
      have "monitor_walk cfg False start buffer ?next prior w = (Inr prior', w')"
        using "1.prems" True skip by (subst (asm) monitor_walk.simps) simp
      from "1.hyps"(1) [OF True skip this] show ?thesis
        by (simp add: wi skip)
    next
      case noskip: False
      let ?a = "start + int idx"
      let ?v = "register_value (find_addr Quint24DCRegisters ?a) buffer idx"
      obtain res w1 where me: "monitor_entry cfg False ?a (find_addr Quint24DCRegisters ?a)
                                 buffer idx prior w = (res, w1)"
        by (cases "monitor_entry cfg False ?a (find_addr Quint24DCRegisters ?a) buffer idx prior w")
      have step: "monitor_walk cfg False start buffer idx prior w =
           (case (res, w1) of
              (Inl e, w') \<Rightarrow> (Inl e, w')
            | (Inr prior', w') \<Rightarrow> monitor_walk cfg False start buffer ?next prior' w')"
        using monitor_walk_step [OF True noskip, of False prior w] me by simp
      obtain prior1 where res: "res = Inr prior1"
        using "1.prems" step by (cases res) simp_all
      have next_walk: "monitor_walk cfg False start buffer ?next prior1 w1 = (Inr prior', w')"
        using "1.prems" step res by simp
      have p1: "prior1 = prior(?a \<mapsto> ?v)"
        using monitor_entry_prior me res by blast
      have w1: "w1 = w\<lparr>stdout := stdout w @ entry_lines cfg prior (now w) start buffer idx\<rparr>"
        using monitor_entry_success me res by blast
      have same: "entry_lines cfg prior1 (now w1) start buffer i
                    = entry_lines cfg prior (now w) start buffer i"
        if "i \<in> set ?rest" for i
      proof -
        from that have "i \<in> set (walk_indices start (length buffer) ?next)" by simp
        then have "?next \<le> i" by (rule walk_indices_ge)
        then have "idx < i" using idx_inc_catalog_pos [of ?a] by simp
        then have "prior1 (start + int i) = prior (start + int i)"
          by (simp add: p1)
        moreover have "now w1 = now w"
          by (simp add: w1)
        ultimately show ?thesis
          by (simp add: entry_lines_def)
      qed
      then have maps: "map (entry_lines cfg prior1 (now w1) start buffer) ?rest
                         = map (entry_lines cfg prior (now w) start buffer) ?rest"
        by (intro map_cong refl)
      from "1.hyps"(2) [OF True noskip me [symmetric] res next_walk]
      have "w' = w1\<lparr>stdout := stdout w1 @
               concat (map (entry_lines cfg prior (now w) start buffer) ?rest)\<rparr>"
        and "prior' = record_values start buffer ?rest prior1"
        unfolding maps by simp_all
      then show ?thesis
        by (simp add: wi noskip w1 p1 record_values_def)
    qed
  qed
qed

lemma monitor_walk_warm_up:
  "monitor_walk cfg True start buffer idx prior w
     = (Inr (record_values start buffer
               (filter (\<lambda>i. start + int i \<notin> set (skip_addr cfg))
                  (walk_indices start (length buffer) idx)) prior), w)"
proof (induction cfg True start buffer idx prior w rule: monitor_walk.induct)
  case (1 cfg start buffer idx prior w)
  show ?case
  proof (cases "idx < length buffer")
    case False
    then show ?thesis
      by (subst monitor_walk.simps) (simp add: walk_indices_done record_values_def)
  next
    case True
    note wi = walk_indices_unfold [OF True, of start]
    show ?thesis
    proof (cases "start + int idx \<in> set (skip_addr cfg)")
      case skip: True
      from "1.hyps"(1) [OF True skip] show ?thesis
        by (simp add: monitor_walk_first_unfold [OF True] wi skip del: monitor_walk.simps)
    next
      case noskip: False
      from "1.hyps"(2) [OF True noskip monitor_entry_first [symmetric] refl] show ?thesis
        by (simp add: monitor_walk_first_unfold [OF True] wi noskip record_values_def
              del: monitor_walk.simps)
    qed
  qed
qed

lemma round_pos_nonneg: "0 < q \<Longrightarrow> 0 \<le> round_pos q"
proof -
  assume q: "0 < q"
  have "of_int 0 \<le> q / 2 powi expo q"
    using q by simp
  then have "0 \<le> round_half_even (q / 2 powi expo q)"
    by (rule round_half_even_ge)
  then show ?thesis
    by (simp add: round_pos_def)
qed

lemma gt_float_mono: "gt_float x r \<Longrightarrow> x \<le> y \<Longrightarrow> gt_float y r"
  by (cases r) (simp_all add: gt_float_def)

lemma rel_check_imp_exact:
  assumes "v \<noteq> p" and "is_float r" and "true_div \<bar>v - p\<bar> p = Inr x" and "gt_float x r"
  shows "gt_float (of_int \<bar>v - p\<bar> / of_int \<bar>p\<bar>) r"
proof -
  from true_div_Inr [OF assms(3)]
  have p0: "p \<noteq> 0" and x: "x = round_double (of_int \<bar>v - p\<bar> / of_int p)"
    by simp_all
  have d: "0 < \<bar>v - p\<bar>" using assms(1) by simp
  show ?thesis
  proof (cases "0 < p")
    case True
    then have "(0::rat) < of_int \<bar>v - p\<bar> / of_int p"
      using d by simp
    from gt_float_round_imp_exact [OF this assms(2)] assms(4) x True show ?thesis
      by simp
  next
    case False
    with p0 have neg: "p < 0" by simp
    let ?q = "(of_int \<bar>v - p\<bar> / of_int p) :: rat"
    have q: "?q < 0"
      using d neg by (simp add: divide_pos_neg)
    then have "0 < - ?q" by simp
    then have "0 \<le> round_pos (- ?q)" by (rule round_pos_nonneg)
    then have "x \<le> 0"
      using q x by (simp add: round_double_def)
    moreover have "(0::rat) \<le> of_int \<bar>v - p\<bar> / of_int \<bar>p\<bar>"
      by simp
    ultimately have "x \<le> of_int \<bar>v - p\<bar> / of_int \<bar>p\<bar>"
      by (rule order_trans)
    with assms(4) show ?thesis by (rule gt_float_mono)
  qed
qed

lemma entry_lines_nonempty:
  "entry_lines cfg prior stamp start buffer i \<noteq> [] \<longleftrightarrow>
     show_value cfg (prior (start + int i))
       (register_value (find_addr Quint24DCRegisters (start + int i)) buffer i) = Inr True"
  using print_value_catalog_nonempty [of "start + int i"]
  by (simp add: entry_lines_def Let_def)

end
